theory Spec2Isabelle
  imports Main "HOL-Library.FSet" "HOL-Library.Multiset" "HOL-Library.Sublist"
begin

section \<open>Shared data model\<close>

text \<open>
  The four components are React function components; each keeps its session in
  \<open>useState\<close> cells and replaces them in \<open>step\<close> and \<open>reset\<close>. A session is
  modelled as a record of all cells of one component, and every handler as a function
  from the session before the call to the session after it.

  \<open>graph.find(...)!\<close> yields \<open>undefined\<close> for an identifier that is not in the graph,
  and the following read of \<open>.neighbors\<close> then throws a \<open>TypeError\<close> before any
  \<open>setState\<close> call: the graph variants of \<open>step\<close> return \<open>error + session\<close>.
  A JavaScript \<open>Set\<close> is finite, so the visited sets are finite sets.
\<close>

datatype error = TypeError

record node =
  node_id :: string
  node_x :: nat
  node_y :: nat
  neighbors :: "string list"

section \<open>Depth-first search\<close>

record dfs_state =
  dfs_visited :: "string fset"
  dfs_stack :: "string list"
  dfs_current :: "string option"
  dfs_path :: "string list"
  dfs_step_no :: nat
  dfs_isPlaying :: bool
  dfs_isComplete :: bool

definition dfs_graph :: "node list" where
  "dfs_graph =
    [\<lparr>node_id = ''A'', node_x = 100, node_y = 50, neighbors = [''B'', ''C'']\<rparr>,
     \<lparr>node_id = ''B'', node_x = 50, node_y = 150, neighbors = [''A'', ''D'', ''E'']\<rparr>,
     \<lparr>node_id = ''C'', node_x = 150, node_y = 150, neighbors = [''A'', ''F'']\<rparr>,
     \<lparr>node_id = ''D'', node_x = 25, node_y = 250, neighbors = [''B'']\<rparr>,
     \<lparr>node_id = ''E'', node_x = 75, node_y = 250, neighbors = [''B'', ''G'']\<rparr>,
     \<lparr>node_id = ''F'', node_x = 175, node_y = 250, neighbors = [''C'', ''G'']\<rparr>,
     \<lparr>node_id = ''G'', node_x = 125, node_y = 350, neighbors = [''E'', ''F'']\<rparr>]"

definition dfs_target :: string where
  "dfs_target = ''G''"

definition dfs_initial :: dfs_state where
  "dfs_initial =
    \<lparr>dfs_visited = {||}, dfs_stack = [''A''], dfs_current = None, dfs_path = [],
     dfs_step_no = 0, dfs_isPlaying = False, dfs_isComplete = False\<rparr>"

definition dfs_reset :: "dfs_state \<Rightarrow> dfs_state" where
  "dfs_reset s =
    \<lparr>dfs_visited = {||}, dfs_stack = [''A''], dfs_current = None, dfs_path = [],
     dfs_step_no = 0, dfs_isPlaying = False, dfs_isComplete = False\<rparr>"

text \<open>
  The stack is the JavaScript array: \<open>push\<close> appends and \<open>pop\<close> takes the last
  element. The neighbours are filtered against the visited set that already holds the
  popped node and against the stack after the pop, then reversed and pushed in turn.
\<close>

definition dfs_step :: "dfs_state \<Rightarrow> error + dfs_state" where
  "dfs_step s =
    (if dfs_stack s = [] \<or> dfs_isComplete s then Inr s
     else
       let newStack = butlast (dfs_stack s);
           current = last (dfs_stack s);
           newVisited = finsert current (dfs_visited s)
       in case find (\<lambda>n. node_id n = current) dfs_graph of
            None \<Rightarrow> Inl TypeError
          | Some currentNode \<Rightarrow>
              let unvisitedNeighbors =
                    rev (filter (\<lambda>neighbor. neighbor |\<notin>| newVisited \<and> neighbor \<notin> set newStack)
                          (neighbors currentNode))
              in Inr \<lparr>dfs_visited = newVisited,
                      dfs_stack = newStack @ unvisitedNeighbors,
                      dfs_current = Some current,
                      dfs_path = dfs_path s @ [current],
                      dfs_step_no = dfs_step_no s + 1,
                      dfs_isPlaying = (if current = dfs_target then False else dfs_isPlaying s),
                      dfs_isComplete = (if current = dfs_target then True else dfs_isComplete s)\<rparr>)"

text \<open>\<open>n\<close> successive invocations of \<open>step\<close>, stopping at the first exception.\<close>

fun dfs_steps :: "nat \<Rightarrow> dfs_state \<Rightarrow> error + dfs_state" where
  "dfs_steps 0 s = Inr s"
| "dfs_steps (Suc n) s = (case dfs_step s of Inl e \<Rightarrow> Inl e | Inr s' \<Rightarrow> dfs_steps n s')"


text \<open>
  The sessions the component can get into: the initial one, and those that \<open>step\<close>,
  \<open>reset\<close> and the play/pause button make of them. The invariant \<open>dfs_inv\<close> holds
  in all of them: the stack has no duplicates, nothing on it is visited, and all of it
  is in the graph (so \<open>find\<close> succeeds).
\<close>

inductive dfs_reachable :: "dfs_state \<Rightarrow> bool" where
  dfs_reach_initial: "dfs_reachable dfs_initial"
| dfs_reach_step: "dfs_reachable s \<Longrightarrow> dfs_step s = Inr s' \<Longrightarrow> dfs_reachable s'"
| dfs_reach_reset: "dfs_reachable s \<Longrightarrow> dfs_reachable (dfs_reset s)"
| dfs_reach_play: "dfs_reachable s \<Longrightarrow> dfs_reachable (s\<lparr>dfs_isPlaying := \<not> dfs_isPlaying s\<rparr>)"

definition dfs_inv :: "dfs_state \<Rightarrow> bool" where
  "dfs_inv s \<longleftrightarrow>
     distinct (dfs_stack s) \<and>
     (\<forall>x \<in> set (dfs_stack s). x |\<notin>| dfs_visited s) \<and>
     set (dfs_stack s) \<subseteq> node_id ` set dfs_graph"

section \<open>Depth-limited search\<close>

record stack_item =
  dls_nodeId :: string
  dls_depth :: nat
  dls_path :: "string list"

record dls_state =
  dls_visited :: "string fset"
  dls_stack :: "stack_item list"
  dls_current :: "string option"
  dls_currentDepth :: nat
  dls_currentPath :: "string list"
  dls_step_no :: nat
  dls_cutoffReached :: bool
  dls_isPlaying :: bool
  dls_isComplete :: bool

definition dls_graph :: "node list" where
  "dls_graph =
    [\<lparr>node_id = ''A'', node_x = 100, node_y = 50, neighbors = [''B'', ''C'']\<rparr>,
     \<lparr>node_id = ''B'', node_x = 50, node_y = 150, neighbors = [''A'', ''D'', ''E'']\<rparr>,
     \<lparr>node_id = ''C'', node_x = 150, node_y = 150, neighbors = [''A'', ''F'']\<rparr>,
     \<lparr>node_id = ''D'', node_x = 25, node_y = 250, neighbors = [''B'']\<rparr>,
     \<lparr>node_id = ''E'', node_x = 75, node_y = 250, neighbors = [''B'', ''G'']\<rparr>,
     \<lparr>node_id = ''F'', node_x = 175, node_y = 250, neighbors = [''C'', ''G'']\<rparr>,
     \<lparr>node_id = ''G'', node_x = 125, node_y = 350, neighbors = [''E'', ''F'']\<rparr>]"

definition dls_target :: string where
  "dls_target = ''G''"

definition dls_initial :: dls_state where
  "dls_initial =
    \<lparr>dls_visited = {||},
     dls_stack = [\<lparr>dls_nodeId = ''A'', dls_depth = 0, dls_path = [''A'']\<rparr>],
     dls_current = None, dls_currentDepth = 0, dls_currentPath = [], dls_step_no = 0,
     dls_cutoffReached = False, dls_isPlaying = False, dls_isComplete = False\<rparr>"

definition dls_reset :: "dls_state \<Rightarrow> dls_state" where
  "dls_reset s =
    \<lparr>dls_visited = {||},
     dls_stack = [\<lparr>dls_nodeId = ''A'', dls_depth = 0, dls_path = [''A'']\<rparr>],
     dls_current = None, dls_currentDepth = 0, dls_currentPath = [], dls_step_no = 0,
     dls_cutoffReached = False, dls_isPlaying = False, dls_isComplete = False\<rparr>"

text \<open>
  The depth limit is a cell of its own, written only by the input field and never by
  \<open>step\<close> or \<open>reset\<close>; it is the first argument of the step function.
\<close>

definition dls_step :: "nat \<Rightarrow> dls_state \<Rightarrow> error + dls_state" where
  "dls_step depthLimit s =
    (if dls_stack s = [] \<or> dls_isComplete s then Inr s
     else
       let newStack = butlast (dls_stack s);
           currentItem = last (dls_stack s);
           newVisited = finsert (dls_nodeId currentItem) (dls_visited s)
       in case find (\<lambda>n. node_id n = dls_nodeId currentItem) dls_graph of
            None \<Rightarrow> Inl TypeError
          | Some currentNode \<Rightarrow>
              let (newStack', cutoffReached) =
                    (if dls_depth currentItem < depthLimit then
                       (newStack @
                          map (\<lambda>neighbor.
                                 \<lparr>dls_nodeId = neighbor,
                                  dls_depth = dls_depth currentItem + 1,
                                  dls_path = dls_path currentItem @ [neighbor]\<rparr>)
                            (rev (filter
                               (\<lambda>neighbor. neighbor |\<notin>| newVisited \<and>
                                  \<not> list_ex (\<lambda>item. dls_nodeId item = neighbor) newStack)
                               (neighbors currentNode))),
                        dls_cutoffReached s)
                     else if list_ex (\<lambda>neighbor. neighbor |\<notin>| newVisited)
                               (neighbors currentNode)
                     then (newStack, True)
                     else (newStack, dls_cutoffReached s))
              in Inr \<lparr>dls_visited = newVisited,
                      dls_stack = newStack',
                      dls_current = Some (dls_nodeId currentItem),
                      dls_currentDepth = dls_depth currentItem,
                      dls_currentPath = dls_path currentItem,
                      dls_step_no = dls_step_no s + 1,
                      dls_cutoffReached = cutoffReached,
                      dls_isPlaying =
                        (if dls_nodeId currentItem = dls_target then False else dls_isPlaying s),
                      dls_isComplete =
                        (if dls_nodeId currentItem = dls_target then True
                         else dls_isComplete s)\<rparr>)"

fun dls_steps :: "nat \<Rightarrow> nat \<Rightarrow> dls_state \<Rightarrow> error + dls_state" where
  "dls_steps depthLimit 0 s = Inr s"
| "dls_steps depthLimit (Suc n) s =
     (case dls_step depthLimit s of Inl e \<Rightarrow> Inl e | Inr s' \<Rightarrow> dls_steps depthLimit n s')"

text \<open>
  The reachable sessions and their invariant, as for depth-first search. Every step may
  run under a different depth limit: the input field stays editable between steps.
\<close>

inductive dls_reachable :: "dls_state \<Rightarrow> bool" where
  dls_reach_initial: "dls_reachable dls_initial"
| dls_reach_step: "dls_reachable s \<Longrightarrow> dls_step depthLimit s = Inr s' \<Longrightarrow> dls_reachable s'"
| dls_reach_reset: "dls_reachable s \<Longrightarrow> dls_reachable (dls_reset s)"
| dls_reach_play: "dls_reachable s \<Longrightarrow> dls_reachable (s\<lparr>dls_isPlaying := \<not> dls_isPlaying s\<rparr>)"

definition dls_inv :: "dls_state \<Rightarrow> bool" where
  "dls_inv s \<longleftrightarrow>
     distinct (map dls_nodeId (dls_stack s)) \<and>
     (\<forall>x \<in> set (dls_stack s). dls_nodeId x |\<notin>| dls_visited s) \<and>
     dls_nodeId ` set (dls_stack s) \<subseteq> node_id ` set dls_graph"

section \<open>Uniform-cost search\<close>

record edge =
  edge_id :: string
  edge_cost :: int

record wnode =
  wnode_id :: string
  wnode_x :: nat
  wnode_y :: nat
  wneighbors :: "edge list"

record pq_item =
  ucs_nodeId :: string
  ucs_cost :: int
  ucs_path :: "string list"

record ucs_state =
  ucs_visited :: "string fset"
  ucs_priorityQueue :: "pq_item list"
  ucs_current :: "string option"
  ucs_currentCost :: int
  ucs_currentPath :: "string list"
  ucs_step_no :: nat
  ucs_costs :: "string \<rightharpoonup> int"
  ucs_isPlaying :: bool
  ucs_isComplete :: bool

definition ucs_graph :: "wnode list" where
  "ucs_graph =
    [\<lparr>wnode_id = ''A'', wnode_x = 100, wnode_y = 50,
      wneighbors = [\<lparr>edge_id = ''B'', edge_cost = 4\<rparr>, \<lparr>edge_id = ''C'', edge_cost = 2\<rparr>]\<rparr>,
     \<lparr>wnode_id = ''B'', wnode_x = 50, wnode_y = 150,
      wneighbors = [\<lparr>edge_id = ''A'', edge_cost = 4\<rparr>, \<lparr>edge_id = ''D'', edge_cost = 5\<rparr>,
                    \<lparr>edge_id = ''E'', edge_cost = 1\<rparr>]\<rparr>,
     \<lparr>wnode_id = ''C'', wnode_x = 150, wnode_y = 150,
      wneighbors = [\<lparr>edge_id = ''A'', edge_cost = 2\<rparr>, \<lparr>edge_id = ''F'', edge_cost = 3\<rparr>]\<rparr>,
     \<lparr>wnode_id = ''D'', wnode_x = 25, wnode_y = 250,
      wneighbors = [\<lparr>edge_id = ''B'', edge_cost = 5\<rparr>]\<rparr>,
     \<lparr>wnode_id = ''E'', wnode_x = 75, wnode_y = 250,
      wneighbors = [\<lparr>edge_id = ''B'', edge_cost = 1\<rparr>, \<lparr>edge_id = ''G'', edge_cost = 2\<rparr>]\<rparr>,
     \<lparr>wnode_id = ''F'', wnode_x = 175, wnode_y = 250,
      wneighbors = [\<lparr>edge_id = ''C'', edge_cost = 3\<rparr>, \<lparr>edge_id = ''G'', edge_cost = 4\<rparr>]\<rparr>,
     \<lparr>wnode_id = ''G'', wnode_x = 125, wnode_y = 350,
      wneighbors = [\<lparr>edge_id = ''E'', edge_cost = 2\<rparr>, \<lparr>edge_id = ''F'', edge_cost = 4\<rparr>]\<rparr>]"

definition ucs_target :: string where
  "ucs_target = ''G''"

definition ucs_initial :: ucs_state where
  "ucs_initial =
    \<lparr>ucs_visited = {||},
     ucs_priorityQueue = [\<lparr>ucs_nodeId = ''A'', ucs_cost = 0, ucs_path = [''A'']\<rparr>],
     ucs_current = None, ucs_currentCost = 0, ucs_currentPath = [], ucs_step_no = 0,
     ucs_costs = [''A'' \<mapsto> 0], ucs_isPlaying = False, ucs_isComplete = False\<rparr>"

definition ucs_reset :: "ucs_state \<Rightarrow> ucs_state" where
  "ucs_reset s =
    \<lparr>ucs_visited = {||},
     ucs_priorityQueue = [\<lparr>ucs_nodeId = ''A'', ucs_cost = 0, ucs_path = [''A'']\<rparr>],
     ucs_current = None, ucs_currentCost = 0, ucs_currentPath = [], ucs_step_no = 0,
     ucs_costs = [''A'' \<mapsto> 0], ucs_isPlaying = False, ucs_isComplete = False\<rparr>"

text \<open>
  The body of the \<open>forEach\<close> over the neighbours. It reads and writes the cost map and
  the queue left after the pop; \<open>!existingCost\<close> holds for \<open>undefined\<close> and for the
  number 0. \<open>remainingQueue.length = 0\<close> followed by the push of the filtered queue
  replaces the queue by the filtered one.
\<close>

definition ucs_relax ::
  "pq_item \<Rightarrow> string fset \<Rightarrow> (string \<rightharpoonup> int) \<times> pq_item list \<Rightarrow> edge \<Rightarrow>
     (string \<rightharpoonup> int) \<times> pq_item list" where
  "ucs_relax currentItem newVisited acc neighbor =
    (case acc of (newCosts, remainingQueue) \<Rightarrow>
       if edge_id neighbor |\<notin>| newVisited then
         let newCost = ucs_cost currentItem + edge_cost neighbor;
             existingCost = newCosts (edge_id neighbor)
         in if (case existingCost of None \<Rightarrow> True | Some c \<Rightarrow> c = 0 \<or> newCost < c) then
              (newCosts(edge_id neighbor \<mapsto> newCost),
               filter (\<lambda>item. ucs_nodeId item \<noteq> edge_id neighbor) remainingQueue @
                 [\<lparr>ucs_nodeId = edge_id neighbor, ucs_cost = newCost,
                   ucs_path = ucs_path currentItem @ [edge_id neighbor]\<rparr>])
            else (newCosts, remainingQueue)
       else (newCosts, remainingQueue))"

text \<open>
  \<open>Array.prototype.sort\<close> is stable, and so is \<open>sort_key\<close>; \<open>shift\<close> removes the
  first element of the sorted copy.
\<close>

definition ucs_step :: "ucs_state \<Rightarrow> error + ucs_state" where
  "ucs_step s =
    (if ucs_priorityQueue s = [] \<or> ucs_isComplete s then Inr s
     else
       let sortedQueue = sort_key ucs_cost (ucs_priorityQueue s);
           currentItem = hd sortedQueue;
           remainingQueue = tl sortedQueue;
           newVisited = finsert (ucs_nodeId currentItem) (ucs_visited s)
       in case find (\<lambda>n. wnode_id n = ucs_nodeId currentItem) ucs_graph of
            None \<Rightarrow> Inl TypeError
          | Some currentNode \<Rightarrow>
              let (newCosts, remainingQueue') =
                    foldl (ucs_relax currentItem newVisited) (ucs_costs s, remainingQueue)
                      (wneighbors currentNode)
              in Inr \<lparr>ucs_visited = newVisited,
                      ucs_priorityQueue = remainingQueue',
                      ucs_current = Some (ucs_nodeId currentItem),
                      ucs_currentCost = ucs_cost currentItem,
                      ucs_currentPath = ucs_path currentItem,
                      ucs_step_no = ucs_step_no s + 1,
                      ucs_costs = newCosts,
                      ucs_isPlaying =
                        (if ucs_nodeId currentItem = ucs_target then False else ucs_isPlaying s),
                      ucs_isComplete =
                        (if ucs_nodeId currentItem = ucs_target then True
                         else ucs_isComplete s)\<rparr>)"

fun ucs_steps :: "nat \<Rightarrow> ucs_state \<Rightarrow> error + ucs_state" where
  "ucs_steps 0 s = Inr s"
| "ucs_steps (Suc n) s = (case ucs_step s of Inl e \<Rightarrow> Inl e | Inr s' \<Rightarrow> ucs_steps n s')"

text \<open>
  Invoking \<open>step\<close> until the completion flag is set. The loop need not end (an emptied
  queue leaves the flag unset for ever), so it carries fuel: \<open>None\<close> stands for fuel
  used up or an exception.
\<close>

fun ucs_run :: "nat \<Rightarrow> ucs_state \<Rightarrow> ucs_state option" where
  "ucs_run 0 s = (if ucs_isComplete s then Some s else None)"
| "ucs_run (Suc n) s =
     (if ucs_isComplete s then Some s
      else case ucs_step s of Inl e \<Rightarrow> None | Inr s' \<Rightarrow> ucs_run n s')"

text \<open>The cost of a walk along declared edges of the weighted graph; \<open>None\<close> when some
  hop is not an edge.\<close>

definition ucs_edge_cost :: "string \<Rightarrow> string \<Rightarrow> int option" where
  "ucs_edge_cost u v =
    (case find (\<lambda>n. wnode_id n = u) ucs_graph of
       None \<Rightarrow> None
     | Some n \<Rightarrow> map_option edge_cost (find (\<lambda>e. edge_id e = v) (wneighbors n)))"

fun ucs_walk_cost :: "string list \<Rightarrow> int option" where
  "ucs_walk_cost [] = None"
| "ucs_walk_cost [u] = (if u \<in> wnode_id ` set ucs_graph then Some 0 else None)"
| "ucs_walk_cost (u # v # rest) =
     (case ucs_edge_cost u v of
        None \<Rightarrow> None
      | Some w \<Rightarrow> map_option (\<lambda>c. w + c) (ucs_walk_cost (v # rest)))"

text \<open>The exact distance of every node from the start node \<open>A\<close>, used as a potential.\<close>

definition ucs_dist :: "string \<Rightarrow> int" where
  "ucs_dist v =
    (if v = ''A'' then 0 else if v = ''B'' then 4 else if v = ''C'' then 2
     else if v = ''D'' then 9 else if v = ''E'' then 5 else if v = ''F'' then 5
     else if v = ''G'' then 7 else 0)"

text \<open>The reachable sessions and their invariant: the queue holds every node at most
  once, none of them visited, all of them in the graph.\<close>

inductive ucs_reachable :: "ucs_state \<Rightarrow> bool" where
  ucs_reach_initial: "ucs_reachable ucs_initial"
| ucs_reach_step: "ucs_reachable s \<Longrightarrow> ucs_step s = Inr s' \<Longrightarrow> ucs_reachable s'"
| ucs_reach_reset: "ucs_reachable s \<Longrightarrow> ucs_reachable (ucs_reset s)"
| ucs_reach_play: "ucs_reachable s \<Longrightarrow> ucs_reachable (s\<lparr>ucs_isPlaying := \<not> ucs_isPlaying s\<rparr>)"

definition ucs_inv :: "ucs_state \<Rightarrow> bool" where
  "ucs_inv s \<longleftrightarrow>
     distinct (map ucs_nodeId (ucs_priorityQueue s)) \<and>
     (\<forall>x \<in> set (ucs_priorityQueue s). ucs_nodeId x |\<notin>| ucs_visited s) \<and>
     ucs_nodeId ` set (ucs_priorityQueue s) \<subseteq> wnode_id ` set ucs_graph"

text \<open>The queue property that every round of the relaxation keeps.\<close>

definition ucs_queue_ok :: "string fset \<Rightarrow> pq_item list \<Rightarrow> bool" where
  "ucs_queue_ok V q \<longleftrightarrow>
     distinct (map ucs_nodeId q) \<and> (\<forall>x \<in> set q. ucs_nodeId x |\<notin>| V) \<and>
     ucs_nodeId ` set q \<subseteq> wnode_id ` set ucs_graph"

section \<open>Eight-puzzle\<close>

text \<open>
  Boards are arrays of numbers, modelled as lists of naturals. The model coincides with
  the JavaScript on boards of nine tiles whose \<open>emptyPos\<close> lies between \<open>-1\<close> (the
  result of \<open>indexOf\<close> on a board without blank, for which no move passes the bounds
  check) and 8: there every array access of the swap is in range. Outside that range
  JavaScript would extend the array with holes, which a list of naturals cannot hold.
  Every reachable session stays inside the range (\<open>puzzle_inv\<close> below).
\<close>

datatype algorithm = bfs | dfs | astar

record puzzle_state =
  board :: "nat list"
  emptyPos :: int
  cost :: nat
  heuristic :: int
  path :: "string list"
  depth :: nat

record puzzle_session =
  puzzleState :: "nat list"
  openList :: "puzzle_state list"
  closedList :: "puzzle_state list"
  current :: "puzzle_state option"
  step_no :: nat
  algorithm :: algorithm
  isPlaying :: bool
  isComplete :: bool
  isSolving :: bool

definition goalState :: "nat list" where
  "goalState = [1, 2, 3, 4, 5, 6, 7, 8, 0]"

definition initialState :: "nat list" where
  "initialState = [1, 2, 3, 4, 0, 5, 7, 8, 6]"

definition puzzle_initial :: puzzle_session where
  "puzzle_initial =
    \<lparr>puzzleState = initialState, openList = [], closedList = [], current = None,
     step_no = 0, algorithm = bfs, isPlaying = False, isComplete = False,
     isSolving = False\<rparr>"

text \<open>\<open>Array.prototype.indexOf\<close>: the first index of the value, or \<open>-1\<close>.\<close>

fun indexOf :: "nat list \<Rightarrow> nat \<Rightarrow> int" where
  "indexOf [] v = - 1"
| "indexOf (x # xs) v =
     (if x = v then 0 else (let r = indexOf xs v in if r < 0 then - 1 else r + 1))"

text \<open>The remainder operator \<open>%\<close> of JavaScript takes the sign of the dividend.\<close>

definition js_rem :: "int \<Rightarrow> int \<Rightarrow> int" where
  "js_rem a b = sgn a * (\<bar>a\<bar> mod \<bar>b\<bar>)"

text \<open>\<open>Array.prototype.every\<close> with the element and its index.\<close>

definition every_idx :: "(nat \<Rightarrow> nat \<Rightarrow> bool) \<Rightarrow> nat list \<Rightarrow> bool" where
  "every_idx p xs = list_all (\<lambda>(val, idx). p val idx) (zip xs [0..<length xs])"

text \<open>
  One round of the loop in \<open>manhattanDistance\<close>. A read beyond the end of the board is
  \<open>undefined\<close>, which differs from 0 and which \<open>indexOf\<close> does not find.
\<close>

definition tile_distance :: "nat list \<Rightarrow> nat \<Rightarrow> int" where
  "tile_distance b i =
    (if i < length b \<and> b ! i = 0 then 0
     else
       let goalPos = (if i < length b then indexOf goalState (b ! i) else - 1);
           currentRow = int i div 3;
           currentCol = js_rem (int i) 3;
           goalRow = goalPos div 3;
           goalCol = js_rem goalPos 3
       in \<bar>currentRow - goalRow\<bar> + \<bar>currentCol - goalCol\<bar>)"

definition manhattanDistance :: "nat list \<Rightarrow> int" where
  "manhattanDistance b = foldl (\<lambda>distance i. distance + tile_distance b i) 0 [0..<9]"

definition isGoalState :: "nat list \<Rightarrow> bool" where
  "isGoalState b = every_idx (\<lambda>val idx. idx < length goalState \<and> val = goalState ! idx) b"

definition boardsEqual :: "nat list \<Rightarrow> nat list \<Rightarrow> bool" where
  "boardsEqual board1 board2 =
     every_idx (\<lambda>val idx. idx < length board2 \<and> val = board2 ! idx) board1"

text \<open>The destructuring swap of two cells; both indices in range (see above).\<close>

definition swap_cells :: "nat list \<Rightarrow> int \<Rightarrow> int \<Rightarrow> nat list" where
  "swap_cells b i j = b[nat i := b ! nat j, nat j := b ! nat i]"

definition moves :: "(int \<times> int \<times> string) list" where
  "moves = [(- 1, 0, ''UP''), (1, 0, ''DOWN''), (0, - 1, ''LEFT''), (0, 1, ''RIGHT'')]"

definition getSuccessors :: "puzzle_state \<Rightarrow> puzzle_state list" where
  "getSuccessors state =
    (let row = emptyPos state div 3;
         col = js_rem (emptyPos state) 3
     in concat (map (\<lambda>(dr, dc, name).
          let newRow = row + dr; newCol = col + dc
          in if newRow \<ge> 0 \<and> newRow < 3 \<and> newCol \<ge> 0 \<and> newCol < 3 then
               let newEmptyPos = newRow * 3 + newCol;
                   newBoard = swap_cells (board state) (emptyPos state) newEmptyPos
               in [\<lparr>board = newBoard, emptyPos = newEmptyPos, cost = cost state + 1,
                     heuristic = manhattanDistance newBoard,
                     path = path state @ [name], depth = depth state + 1\<rparr>]
             else []) moves))"

definition resetSearch :: "puzzle_session \<Rightarrow> puzzle_session" where
  "resetSearch s =
    \<lparr>puzzleState = puzzleState s, openList = [], closedList = [], current = None,
     step_no = 0, algorithm = algorithm s, isPlaying = False, isComplete = False,
     isSolving = False\<rparr>"

text \<open>
  One round of the shuffle loop on the board and the position of the blank.
  \<open>Math.floor(Math.random() * validMoves.length)\<close> is some index of \<open>validMoves\<close>;
  the model takes it from a draw \<open>r\<close> supplied from outside, as \<open>r mod length\<close>, which
  ranges over exactly the indices of \<open>validMoves\<close>.
\<close>

definition shuffle_round :: "nat \<Rightarrow> nat list \<times> int \<Rightarrow> nat list \<times> int" where
  "shuffle_round r acc =
    (case acc of (newBoard, currentEmpty) \<Rightarrow>
       let row = currentEmpty div 3;
           col = js_rem currentEmpty 3;
           validMoves =
             (if row > 0 then [currentEmpty - 3] else []) @
             (if row < 2 then [currentEmpty + 3] else []) @
             (if col > 0 then [currentEmpty - 1] else []) @
             (if col < 2 then [currentEmpty + 1] else []);
           randomMove = validMoves ! (r mod length validMoves)
       in (swap_cells newBoard currentEmpty randomMove, randomMove))"

definition shuffle :: "(nat \<Rightarrow> nat) \<Rightarrow> puzzle_session \<Rightarrow> puzzle_session" where
  "shuffle rnd s =
    (if isSolving s then s
     else
       let (newBoard, currentEmpty) =
             foldl (\<lambda>acc i. shuffle_round (rnd i) acc) (goalState, indexOf goalState 0)
               [0..<50]
       in resetSearch (s\<lparr>puzzleState := newBoard\<rparr>))"

definition startSolve :: "puzzle_session \<Rightarrow> puzzle_session" where
  "startSolve s =
    (if isGoalState (puzzleState s) then s
     else
       let initialPuzzleState =
             \<lparr>board = puzzleState s, emptyPos = indexOf (puzzleState s) 0, cost = 0,
              heuristic = manhattanDistance (puzzleState s), path = [], depth = 0\<rparr>
       in s\<lparr>openList := [initialPuzzleState], closedList := [], current := None,
            step_no := 0, isSolving := True, isComplete := False\<rparr>)"

definition selectAlgorithm :: "algorithm \<Rightarrow> puzzle_session \<Rightarrow> puzzle_session" where
  "selectAlgorithm value s = s\<lparr>algorithm := value\<rparr>"

text \<open>The selection of the next state: the state taken and the open list left.\<close>

definition selectNext :: "algorithm \<Rightarrow> puzzle_state list \<Rightarrow> puzzle_state \<times> puzzle_state list" where
  "selectNext alg newOpenList =
    (case alg of
       bfs \<Rightarrow> (hd newOpenList, tl newOpenList)
     | dfs \<Rightarrow> (last newOpenList, butlast newOpenList)
     | astar \<Rightarrow>
         (let sorted = sort_key (\<lambda>a. int (cost a) + heuristic a) newOpenList
          in (hd sorted, tl sorted)))"

text \<open>The body of the \<open>forEach\<close> over the successors; it reads the open list as the
  earlier rounds left it.\<close>

definition addSuccessor ::
  "puzzle_state list \<Rightarrow> puzzle_state list \<Rightarrow> puzzle_state \<Rightarrow> puzzle_state list" where
  "addSuccessor newClosedList newOpenList successor =
    (let inClosed = list_ex (\<lambda>state. boardsEqual (board state) (board successor)) newClosedList;
         inOpen = list_ex (\<lambda>state. boardsEqual (board state) (board successor)) newOpenList
     in if \<not> inClosed \<and> \<not> inOpen then newOpenList @ [successor] else newOpenList)"

definition puzzle_step :: "puzzle_session \<Rightarrow> puzzle_session" where
  "puzzle_step s =
    (if openList s = [] \<or> isComplete s then s
     else
       let (nextState, newOpenList) = selectNext (algorithm s) (openList s);
           newClosedList = closedList s @ [nextState]
       in if isGoalState (board nextState) then
            s\<lparr>openList := newOpenList, closedList := newClosedList,
              current := Some nextState, step_no := step_no s + 1,
              isComplete := True, isPlaying := False\<rparr>
          else
            s\<lparr>openList := foldl (addSuccessor newClosedList) newOpenList
                             (getSuccessors nextState),
              closedList := newClosedList, current := Some nextState,
              step_no := step_no s + 1\<rparr>)"

fun puzzle_steps :: "nat \<Rightarrow> puzzle_session \<Rightarrow> puzzle_session" where
  "puzzle_steps 0 s = s"
| "puzzle_steps (Suc n) s = puzzle_steps n (puzzle_step s)"

text \<open>
  The reachable sessions: the initial one, and those made by \<open>step\<close>, \<open>resetSearch\<close>,
  \<open>startSolve\<close>, \<open>shuffle\<close> under any draws, the algorithm selector and the play/pause
  button. The handlers count as the functions they are; the page disables some buttons
  while solving, which only removes sessions. The invariant \<open>puzzle_inv\<close>: the board has
  nine cells, every listed state is in the range where the model is exact, and no board
  occurs twice in the open and closed list together.
\<close>

inductive puzzle_reachable :: "puzzle_session \<Rightarrow> bool" where
  puzzle_reach_initial: "puzzle_reachable puzzle_initial"
| puzzle_reach_step: "puzzle_reachable s \<Longrightarrow> puzzle_reachable (puzzle_step s)"
| puzzle_reach_reset: "puzzle_reachable s \<Longrightarrow> puzzle_reachable (resetSearch s)"
| puzzle_reach_start: "puzzle_reachable s \<Longrightarrow> puzzle_reachable (startSolve s)"
| puzzle_reach_shuffle: "puzzle_reachable s \<Longrightarrow> puzzle_reachable (shuffle rnd s)"
| puzzle_reach_select: "puzzle_reachable s \<Longrightarrow> puzzle_reachable (selectAlgorithm a s)"
| puzzle_reach_play: "puzzle_reachable s \<Longrightarrow> puzzle_reachable (s\<lparr>isPlaying := \<not> isPlaying s\<rparr>)"

definition puzzle_state_ok :: "puzzle_state \<Rightarrow> bool" where
  "puzzle_state_ok x \<longleftrightarrow> length (board x) = 9 \<and> - 1 \<le> emptyPos x \<and> emptyPos x < 9"

text \<open>The lists of a session: states in range, boards pairwise different.\<close>

definition lists_ok :: "puzzle_state list \<Rightarrow> puzzle_state list \<Rightarrow> bool" where
  "lists_ok C opn \<longleftrightarrow>
     (\<forall>x \<in> set (opn @ C). puzzle_state_ok x) \<and> distinct (map board (opn @ C))"

definition puzzle_inv :: "puzzle_session \<Rightarrow> bool" where
  "puzzle_inv s \<longleftrightarrow>
     length (puzzleState s) = 9 \<and>
     (\<forall>x \<in> set (openList s @ closedList s). puzzle_state_ok x) \<and>
     distinct (map board (openList s @ closedList s))"

section \<open>Invariants of depth-first search\<close>
lemma dfs_graph_neighbors_distinct: "n \<in> set dfs_graph \<Longrightarrow> distinct (neighbors n)"
  by (auto simp: dfs_graph_def)

lemma dfs_graph_neighbors_closed:
  "n \<in> set dfs_graph \<Longrightarrow> set (neighbors n) \<subseteq> node_id ` set dfs_graph"
  by (auto simp: dfs_graph_def)

lemma dfs_step_active:
  assumes "dfs_stack s \<noteq> []" "\<not> dfs_isComplete s"
    and "find (\<lambda>n. node_id n = last (dfs_stack s)) dfs_graph = Some c"
  shows "dfs_step s = Inr
     \<lparr>dfs_visited = finsert (last (dfs_stack s)) (dfs_visited s),
      dfs_stack = butlast (dfs_stack s) @
        rev (filter (\<lambda>x. x |\<notin>| finsert (last (dfs_stack s)) (dfs_visited s) \<and>
                         x \<notin> set (butlast (dfs_stack s))) (neighbors c)),
      dfs_current = Some (last (dfs_stack s)),
      dfs_path = dfs_path s @ [last (dfs_stack s)],
      dfs_step_no = dfs_step_no s + 1,
      dfs_isPlaying = (if last (dfs_stack s) = dfs_target then False else dfs_isPlaying s),
      dfs_isComplete = (if last (dfs_stack s) = dfs_target then True else dfs_isComplete s)\<rparr>"
  using assms by (simp add: dfs_step_def Let_def)

lemma dfs_find_in_graph:
  assumes "x \<in> node_id ` set dfs_graph"
  obtains c where "find (\<lambda>n. node_id n = x) dfs_graph = Some c" "c \<in> set dfs_graph"
proof -
  from assms have "find (\<lambda>n. node_id n = x) dfs_graph \<noteq> None"
    by (auto simp: find_None_iff)
  then obtain c where c: "find (\<lambda>n. node_id n = x) dfs_graph = Some c" by auto
  then have "c \<in> set dfs_graph" by (auto simp: find_Some_iff)
  with c show ?thesis using that by blast
qed

lemma last_notin_butlast: "distinct xs \<Longrightarrow> xs \<noteq> [] \<Longrightarrow> last xs \<notin> set (butlast xs)"
  by (metis append_butlast_last_id distinct_append not_distinct_conv_prefix)

lemma dfs_step_preserves_inv:
  assumes inv: "dfs_inv s" and st: "dfs_step s = Inr s'"
  shows "dfs_inv s'"
proof (cases "dfs_stack s = [] \<or> dfs_isComplete s")
  case True
  with st have "s' = s" by (simp add: dfs_step_def)
  with inv show ?thesis by simp
next
  case False
  then have ne: "dfs_stack s \<noteq> []" and nc: "\<not> dfs_isComplete s" by auto
  let ?cur = "last (dfs_stack s)"
  from inv ne have "?cur \<in> node_id ` set dfs_graph" by (auto simp: dfs_inv_def)
  then obtain c where c: "find (\<lambda>n. node_id n = ?cur) dfs_graph = Some c" "c \<in> set dfs_graph"
    by (rule dfs_find_in_graph)
  note s' = st [unfolded dfs_step_active [OF ne nc c(1)], simplified]
  have d: "distinct (butlast (dfs_stack s))" using inv by (simp add: dfs_inv_def distinct_butlast)
  have l: "?cur \<notin> set (butlast (dfs_stack s))"
    using inv ne by (simp add: dfs_inv_def last_notin_butlast)
  have b: "set (butlast (dfs_stack s)) \<subseteq> set (dfs_stack s)"
    by (auto dest: in_set_butlastD)
  show ?thesis
    unfolding dfs_inv_def s' [symmetric]
    using d l b inv dfs_graph_neighbors_distinct [OF c(2)] dfs_graph_neighbors_closed [OF c(2)]
    by (auto simp: dfs_inv_def)
qed

lemma dfs_reachable_inv: "dfs_reachable s \<Longrightarrow> dfs_inv s"
proof (induction rule: dfs_reachable.induct)
  case dfs_reach_initial
  show ?case by (simp add: dfs_inv_def dfs_initial_def dfs_graph_def)
next
  case (dfs_reach_step s s')
  then show ?case by (simp add: dfs_step_preserves_inv)
next
  case (dfs_reach_reset s)
  show ?case by (simp add: dfs_inv_def dfs_reset_def dfs_graph_def)
next
  case (dfs_reach_play s)
  then show ?case by (simp add: dfs_inv_def)
qed

section \<open>Invariants of depth-limited search\<close>

lemma dls_graph_neighbors_distinct: "n \<in> set dls_graph \<Longrightarrow> distinct (neighbors n)"
  by (auto simp: dls_graph_def)

lemma dls_graph_neighbors_closed:
  "n \<in> set dls_graph \<Longrightarrow> set (neighbors n) \<subseteq> node_id ` set dls_graph"
  by (auto simp: dls_graph_def)

lemma dls_find_in_graph:
  assumes "x \<in> node_id ` set dls_graph"
  obtains c where "find (\<lambda>n. node_id n = x) dls_graph = Some c" "c \<in> set dls_graph"
proof -
  from assms have "find (\<lambda>n. node_id n = x) dls_graph \<noteq> None"
    by (auto simp: find_None_iff)
  then obtain c where c: "find (\<lambda>n. node_id n = x) dls_graph = Some c" by auto
  then have "c \<in> set dls_graph" by (auto simp: find_Some_iff)
  with c show ?thesis using that by blast
qed

text \<open>The shape of the session after a step that passes the guard.\<close>

lemma dls_step_active:
  assumes "dls_stack s \<noteq> []" "\<not> dls_isComplete s"
    and "find (\<lambda>n. node_id n = dls_nodeId (last (dls_stack s))) dls_graph = Some c"
    and "dls_step d s = Inr s'"
  shows "dls_visited s' = finsert (dls_nodeId (last (dls_stack s))) (dls_visited s)"
    and "dls_stack s' = butlast (dls_stack s) \<or>
         dls_stack s' = butlast (dls_stack s) @
           map (\<lambda>nb. \<lparr>dls_nodeId = nb, dls_depth = dls_depth (last (dls_stack s)) + 1,
                       dls_path = dls_path (last (dls_stack s)) @ [nb]\<rparr>)
             (rev (filter (\<lambda>nb. nb |\<notin>| finsert (dls_nodeId (last (dls_stack s))) (dls_visited s) \<and>
                     \<not> list_ex (\<lambda>item. dls_nodeId item = nb) (butlast (dls_stack s)))
                (neighbors c)))"
    and "dls_cutoffReached s \<Longrightarrow> dls_cutoffReached s'"
  using assms by (auto simp: dls_step_def Let_def split: if_splits)

lemma dls_step_preserves_inv:
  assumes inv: "dls_inv s" and st: "dls_step d s = Inr s'"
  shows "dls_inv s'"
proof (cases "dls_stack s = [] \<or> dls_isComplete s")
  case True
  with st have "s' = s" by (simp add: dls_step_def)
  with inv show ?thesis by simp
next
  case False
  then have ne: "dls_stack s \<noteq> []" and nc: "\<not> dls_isComplete s" by auto
  let ?cur = "last (dls_stack s)"
  let ?rest = "butlast (dls_stack s)"
  from inv ne have "dls_nodeId ?cur \<in> node_id ` set dls_graph"
    by (auto simp: dls_inv_def)
  then obtain c where c: "find (\<lambda>n. node_id n = dls_nodeId ?cur) dls_graph = Some c"
      "c \<in> set dls_graph"
    by (rule dls_find_in_graph)
  note v = dls_step_active(1) [OF ne nc c(1) st]
  note k = dls_step_active(2) [OF ne nc c(1) st]
  have split: "dls_stack s = ?rest @ [?cur]" using ne by simp
  have dist: "distinct (map dls_nodeId ?rest @ [dls_nodeId ?cur])"
    using inv split by (metis dls_inv_def list.simps(8,9) map_append)
  have d: "distinct (map dls_nodeId ?rest)"
    using dist by simp
  have "dls_nodeId ?cur \<notin> set (map dls_nodeId ?rest)"
    using dist by simp
  then have l: "\<forall>x \<in> set ?rest. dls_nodeId x \<noteq> dls_nodeId ?cur"
    by (metis image_eqI set_map)
  have b: "\<forall>x \<in> set ?rest. x \<in> set (dls_stack s)"
    by (auto dest: in_set_butlastD)
  have fresh: "\<forall>x \<in> set (dls_stack s). dls_nodeId x |\<notin>| dls_visited s"
    and ids: "\<forall>x \<in> set (dls_stack s). dls_nodeId x \<in> node_id ` set dls_graph"
    using inv by (auto simp: dls_inv_def)
  from k show ?thesis
  proof
    assume e: "dls_stack s' = ?rest"
    have "distinct (map dls_nodeId (dls_stack s'))" using d e by simp
    moreover have "\<forall>x \<in> set (dls_stack s'). dls_nodeId x |\<notin>| dls_visited s'"
      using l b fresh by (simp add: e v)
    moreover have "dls_nodeId ` set (dls_stack s') \<subseteq> node_id ` set dls_graph"
      using b ids unfolding e by blast
    ultimately show ?thesis by (simp add: dls_inv_def)
  next
    let ?new = "filter (\<lambda>nb. nb |\<notin>| finsert (dls_nodeId ?cur) (dls_visited s) \<and>
                     \<not> list_ex (\<lambda>item. dls_nodeId item = nb) ?rest) (neighbors c)"
    assume e: "dls_stack s' = ?rest @
           map (\<lambda>nb. \<lparr>dls_nodeId = nb, dls_depth = dls_depth ?cur + 1,
                       dls_path = dls_path ?cur @ [nb]\<rparr>) (rev ?new)"
    have ids': "map dls_nodeId (dls_stack s') = map dls_nodeId ?rest @ rev ?new"
      unfolding e by (simp add: comp_def)
    have "distinct ?new" using dls_graph_neighbors_distinct [OF c(2)] by simp
    moreover have "set (map dls_nodeId ?rest) \<inter> set ?new = {}"
      by (auto simp: list_ex_iff)
    ultimately have "distinct (map dls_nodeId (dls_stack s'))"
      unfolding ids' using d by simp
    moreover have "\<forall>y \<in> set (map dls_nodeId (dls_stack s')). y |\<notin>| dls_visited s'"
      unfolding ids' v using l b fresh by auto
    then have "\<forall>x \<in> set (dls_stack s'). dls_nodeId x |\<notin>| dls_visited s'" by simp
    moreover have "set (map dls_nodeId (dls_stack s')) \<subseteq> node_id ` set dls_graph"
      unfolding ids' using b ids dls_graph_neighbors_closed [OF c(2)] by auto
    then have "dls_nodeId ` set (dls_stack s') \<subseteq> node_id ` set dls_graph" by simp
    ultimately show ?thesis by (simp add: dls_inv_def)
  qed
qed

lemma dls_reachable_inv: "dls_reachable s \<Longrightarrow> dls_inv s"
proof (induction rule: dls_reachable.induct)
  case dls_reach_initial
  show ?case by (simp add: dls_inv_def dls_initial_def dls_graph_def)
next
  case (dls_reach_step s depthLimit s')
  then show ?case by (simp add: dls_step_preserves_inv)
next
  case (dls_reach_reset s)
  show ?case by (simp add: dls_inv_def dls_reset_def dls_graph_def)
next
  case (dls_reach_play s)
  then show ?case by (simp add: dls_inv_def)
qed

section \<open>Invariants of uniform-cost search\<close>

lemma ucs_graph_neighbors_closed:
  "n \<in> set ucs_graph \<Longrightarrow> edge_id ` set (wneighbors n) \<subseteq> wnode_id ` set ucs_graph"
  by (auto simp: ucs_graph_def)

lemma ucs_graph_neighbors_distinct:
  "n \<in> set ucs_graph \<Longrightarrow> distinct (map edge_id (wneighbors n))"
  by (auto simp: ucs_graph_def)

lemma ucs_find_in_graph:
  assumes "x \<in> wnode_id ` set ucs_graph"
  obtains c where "find (\<lambda>n. wnode_id n = x) ucs_graph = Some c" "c \<in> set ucs_graph"
proof -
  from assms have "find (\<lambda>n. wnode_id n = x) ucs_graph \<noteq> None"
    by (auto simp: find_None_iff)
  then obtain c where c: "find (\<lambda>n. wnode_id n = x) ucs_graph = Some c" by auto
  then have "c \<in> set ucs_graph" by (auto simp: find_Some_iff)
  with c show ?thesis using that by blast
qed

lemma sort_key_hd_tl:
  assumes "xs \<noteq> []"
  shows "sort_key f xs = hd (sort_key f xs) # tl (sort_key f xs)"
proof -
  have "length (sort_key f xs) = length xs" by simp
  with assms have "sort_key f xs \<noteq> []" by (metis length_0_conv)
  then show ?thesis by simp
qed

lemma sort_key_pop_mset:
  assumes "xs \<noteq> []"
  shows "mset xs = add_mset (hd (sort_key f xs)) (mset (tl (sort_key f xs)))"
proof -
  have "mset xs = mset (sort_key f xs)" by simp
  also have "\<dots> = mset (hd (sort_key f xs) # tl (sort_key f xs))"
    using sort_key_hd_tl [OF assms, of f] by simp
  finally show ?thesis by simp
qed

lemma ucs_relax_queue_ok:
  assumes "ucs_queue_ok V q" "edge_id nb \<in> wnode_id ` set ucs_graph"
  shows "ucs_queue_ok V (snd (ucs_relax cur V (cs, q) nb))"
proof -
  let ?keep = "filter (\<lambda>item. ucs_nodeId item \<noteq> edge_id nb) q"
  have "distinct (map ucs_nodeId ?keep)"
    using assms(1) by (simp add: ucs_queue_ok_def distinct_map_filter)
  moreover have "edge_id nb \<notin> set (map ucs_nodeId ?keep)" by auto
  ultimately have
    "distinct (map ucs_nodeId (?keep @ [\<lparr>ucs_nodeId = edge_id nb, ucs_cost = k, ucs_path = p\<rparr>]))"
    for k p by simp
  moreover have "set ?keep \<subseteq> set q" by auto
  ultimately show ?thesis
    using assms unfolding ucs_queue_ok_def ucs_relax_def Let_def
    by (auto split: option.splits)
qed

lemma ucs_foldl_relax_queue_ok:
  assumes "ucs_queue_ok V q" "edge_id ` set nbs \<subseteq> wnode_id ` set ucs_graph"
  shows "ucs_queue_ok V (snd (foldl (ucs_relax cur V) (cs, q) nbs))"
  using assms
proof (induction nbs arbitrary: cs q)
  case Nil
  then show ?case by simp
next
  case (Cons nb nbs)
  obtain cs' q' where r: "ucs_relax cur V (cs, q) nb = (cs', q')" by (cases "ucs_relax cur V (cs, q) nb")
  have "ucs_queue_ok V q'"
    using ucs_relax_queue_ok [of V q nb cur cs] Cons.prems r by simp
  then have "ucs_queue_ok V (snd (foldl (ucs_relax cur V) (cs', q') nbs))"
    using Cons.IH Cons.prems(2) by simp
  then show ?case by (simp add: r)
qed

lemma ucs_step_active:
  assumes "ucs_priorityQueue s \<noteq> []" "\<not> ucs_isComplete s"
    and "find (\<lambda>n. wnode_id n = ucs_nodeId (hd (sort_key ucs_cost (ucs_priorityQueue s))))
           ucs_graph = Some c"
    and "ucs_step s = Inr s'"
  shows "ucs_visited s' =
           finsert (ucs_nodeId (hd (sort_key ucs_cost (ucs_priorityQueue s)))) (ucs_visited s)"
    and "(ucs_costs s', ucs_priorityQueue s') =
           foldl (ucs_relax (hd (sort_key ucs_cost (ucs_priorityQueue s)))
                    (finsert (ucs_nodeId (hd (sort_key ucs_cost (ucs_priorityQueue s))))
                       (ucs_visited s)))
             (ucs_costs s, tl (sort_key ucs_cost (ucs_priorityQueue s))) (wneighbors c)"
  using assms by (auto simp: ucs_step_def Let_def split: prod.splits)

lemma ucs_step_preserves_inv:
  assumes inv: "ucs_inv s" and st: "ucs_step s = Inr s'"
  shows "ucs_inv s'"
proof (cases "ucs_priorityQueue s = [] \<or> ucs_isComplete s")
  case True
  with st have "s' = s" by (simp add: ucs_step_def)
  with inv show ?thesis by simp
next
  case False
  then have ne: "ucs_priorityQueue s \<noteq> []" and nc: "\<not> ucs_isComplete s" by auto
  let ?sorted = "sort_key ucs_cost (ucs_priorityQueue s)"
  let ?cur = "hd ?sorted"
  let ?rest = "tl ?sorted"
  let ?V = "finsert (ucs_nodeId ?cur) (ucs_visited s)"
  have m: "mset (ucs_priorityQueue s) = add_mset ?cur (mset ?rest)"
    by (rule sort_key_pop_mset [OF ne])
  then have sets: "set (ucs_priorityQueue s) = insert ?cur (set ?rest)"
    by (metis set_mset_add_mset_insert set_mset_mset)
  have "mset (map ucs_nodeId (ucs_priorityQueue s)) = mset (map ucs_nodeId (?cur # ?rest))"
    using m by (metis mset.simps(2) mset_map)
  then have "distinct (map ucs_nodeId (?cur # ?rest))"
    using inv by (metis ucs_inv_def mset_eq_imp_distinct_iff)
  then have d: "distinct (map ucs_nodeId ?rest)"
    and "ucs_nodeId ?cur \<notin> set (map ucs_nodeId ?rest)" by simp_all
  then have l: "\<forall>x \<in> set ?rest. ucs_nodeId x \<noteq> ucs_nodeId ?cur"
    by (metis image_eqI set_map)
  have fresh: "\<forall>x \<in> set ?rest. ucs_nodeId x |\<notin>| ucs_visited s"
    and ids: "\<forall>x \<in> set ?rest. ucs_nodeId x \<in> wnode_id ` set ucs_graph"
    using inv sets by (auto simp: ucs_inv_def)
  have "ucs_nodeId ?cur \<in> wnode_id ` set ucs_graph"
    using inv sets by (auto simp: ucs_inv_def)
  then obtain c where c: "find (\<lambda>n. wnode_id n = ucs_nodeId ?cur) ucs_graph = Some c"
      "c \<in> set ucs_graph"
    by (rule ucs_find_in_graph)
  note v = ucs_step_active(1) [OF ne nc c(1) st]
  note q = ucs_step_active(2) [OF ne nc c(1) st]
  have "\<forall>x \<in> set ?rest. ucs_nodeId x |\<notin>| ?V"
    using l fresh by simp
  moreover have "ucs_nodeId ` set ?rest \<subseteq> wnode_id ` set ucs_graph"
    using ids by blast
  ultimately have "ucs_queue_ok ?V ?rest"
    unfolding ucs_queue_ok_def using d by simp
  then have "ucs_queue_ok ?V (snd (foldl (ucs_relax ?cur ?V) (ucs_costs s, ?rest) (wneighbors c)))"
    using ucs_graph_neighbors_closed [OF c(2)] by (rule ucs_foldl_relax_queue_ok)
  then have "ucs_queue_ok (ucs_visited s') (ucs_priorityQueue s')"
    unfolding v q [symmetric] by simp
  then show ?thesis by (simp add: ucs_inv_def ucs_queue_ok_def)
qed

lemma ucs_reachable_inv: "ucs_reachable s \<Longrightarrow> ucs_inv s"
proof (induction rule: ucs_reachable.induct)
  case ucs_reach_initial
  show ?case by (simp add: ucs_inv_def ucs_initial_def ucs_graph_def)
next
  case (ucs_reach_step s s')
  then show ?case by (simp add: ucs_step_preserves_inv)
next
  case (ucs_reach_reset s)
  show ?case by (simp add: ucs_inv_def ucs_reset_def ucs_graph_def)
next
  case (ucs_reach_play s)
  then show ?case by (simp add: ucs_inv_def)
qed

section \<open>Invariants of the eight-puzzle\<close>

lemma every_idx_iff: "every_idx p xs \<longleftrightarrow> (\<forall>i < length xs. p (xs ! i) i)"
proof -
  have "set (zip xs [0..<length xs]) = {(xs ! i, i) | i. i < length xs}"
    by (auto simp: set_zip)
  then show ?thesis
    unfolding every_idx_def list_all_iff by auto
qed

lemma boardsEqual_same_length:
  assumes "length b1 = length b2"
  shows "boardsEqual b1 b2 \<longleftrightarrow> b1 = b2"
  using assms by (auto simp: boardsEqual_def every_idx_iff intro: nth_equalityI)

lemma boardsEqual_refl: "boardsEqual b b"
  by (simp add: boardsEqual_same_length)

lemma length_swap_cells: "length (swap_cells b i j) = length b"
  by (simp add: swap_cells_def)

lemma getSuccessors_ok:
  assumes "x \<in> set (getSuccessors st)"
  shows "length (board x) = length (board st)" and "0 \<le> emptyPos x" and "emptyPos x < 9"
  using assms
  by (auto simp: getSuccessors_def moves_def Let_def length_swap_cells split: if_splits)

lemma selectNext_mset:
  assumes "xs \<noteq> []" "selectNext alg xs = (n, r)"
  shows "mset xs = add_mset n (mset r)"
proof (cases alg)
  case bfs
  with assms have "xs = n # r" by (cases xs) (auto simp: selectNext_def)
  then show ?thesis by simp
next
  case dfs
  with assms have "xs = r @ [n]" by (auto simp: selectNext_def)
  then show ?thesis by simp
next
  case astar
  with assms have "n = hd (sort_key (\<lambda>a. int (cost a) + heuristic a) xs)"
    and "r = tl (sort_key (\<lambda>a. int (cost a) + heuristic a) xs)"
    by (auto simp: selectNext_def Let_def)
  then show ?thesis using sort_key_pop_mset [OF assms(1)] by simp
qed

text \<open>What the loop over the successors leaves in the open list.\<close>

lemma addSuccessors_result:
  "\<exists>added. foldl (addSuccessor C) opn succs = opn @ added \<and> subseq added succs \<and>
     (\<forall>x \<in> set added. \<not> (\<exists>y \<in> set C \<union> set opn. boardsEqual (board y) (board x))) \<and>
     (\<forall>x \<in> set succs. x \<notin> set added \<longrightarrow>
        (\<exists>y \<in> set C \<union> set opn \<union> set added. boardsEqual (board y) (board x)))"
proof (induction succs arbitrary: opn)
  case Nil
  show ?case by simp
next
  case (Cons x xs)
  show ?case
  proof (cases "\<exists>y \<in> set C \<union> set opn. boardsEqual (board y) (board x)")
    case True
    then have "addSuccessor C opn x = opn"
      by (auto simp: addSuccessor_def list_ex_iff)
    moreover from Cons.IH [of opn] obtain added where a:
      "foldl (addSuccessor C) opn xs = opn @ added" "subseq added xs"
      "\<forall>z \<in> set added. \<not> (\<exists>y \<in> set C \<union> set opn. boardsEqual (board y) (board z))"
      "\<forall>z \<in> set xs. z \<notin> set added \<longrightarrow>
         (\<exists>y \<in> set C \<union> set opn \<union> set added. boardsEqual (board y) (board z))"
      by blast
    ultimately have "foldl (addSuccessor C) opn (x # xs) = opn @ added" by simp
    moreover have "subseq added (x # xs)" using a(2) by (rule list_emb_Cons)
    moreover have "\<forall>z \<in> set (x # xs). z \<notin> set added \<longrightarrow>
         (\<exists>y \<in> set C \<union> set opn \<union> set added. boardsEqual (board y) (board z))"
      using True a(4) by auto
    ultimately show ?thesis using a(3) by blast
  next
    case False
    then have step: "addSuccessor C opn x = opn @ [x]"
      by (auto simp: addSuccessor_def list_ex_iff)
    from Cons.IH [of "opn @ [x]"] obtain added where a:
      "foldl (addSuccessor C) (opn @ [x]) xs = (opn @ [x]) @ added" "subseq added xs"
      "\<forall>z \<in> set added. \<not> (\<exists>y \<in> set C \<union> set (opn @ [x]). boardsEqual (board y) (board z))"
      "\<forall>z \<in> set xs. z \<notin> set added \<longrightarrow>
         (\<exists>y \<in> set C \<union> set (opn @ [x]) \<union> set added. boardsEqual (board y) (board z))"
      by blast
    have "foldl (addSuccessor C) opn (x # xs) = opn @ (x # added)"
      using step a(1) by simp
    moreover have "subseq (x # added) (x # xs)" using a(2) by simp
    moreover have "\<forall>z \<in> set (x # added).
        \<not> (\<exists>y \<in> set C \<union> set opn. boardsEqual (board y) (board z))"
      using False a(3) by auto
    moreover have "\<forall>z \<in> set (x # xs). z \<notin> set (x # added) \<longrightarrow>
         (\<exists>y \<in> set C \<union> set opn \<union> set (x # added). boardsEqual (board y) (board z))"
      using a(4) by auto
    ultimately show ?thesis by blast
  qed
qed

lemma addSuccessor_lists_ok:
  assumes "lists_ok C opn" "length (board x) = 9" "- 1 \<le> emptyPos x" "emptyPos x < 9"
  shows "lists_ok C (addSuccessor C opn x)"
proof (cases "\<exists>y \<in> set C \<union> set opn. boardsEqual (board y) (board x)")
  case True
  then have "addSuccessor C opn x = opn"
    by (auto simp: addSuccessor_def list_ex_iff)
  with assms(1) show ?thesis by simp
next
  case False
  then have step: "addSuccessor C opn x = opn @ [x]"
    by (auto simp: addSuccessor_def list_ex_iff)
  have "\<forall>y \<in> set (opn @ C). board y \<noteq> board x"
  proof
    fix y assume y: "y \<in> set (opn @ C)"
    then have "length (board y) = length (board x)"
      using assms(1,2) by (simp add: lists_ok_def puzzle_state_ok_def)
    moreover have "\<not> boardsEqual (board y) (board x)" using False y by auto
    ultimately show "board y \<noteq> board x" by (simp add: boardsEqual_same_length)
  qed
  then have "board x \<notin> set (map board (opn @ C))" by auto
  then have "distinct (map board ((opn @ [x]) @ C))"
    using assms(1) by (auto simp: lists_ok_def)
  moreover have "\<forall>y \<in> set ((opn @ [x]) @ C). puzzle_state_ok y"
    using assms by (auto simp: lists_ok_def puzzle_state_ok_def)
  ultimately show ?thesis by (simp add: step lists_ok_def)
qed

lemma addSuccessors_lists_ok:
  assumes "lists_ok C opn"
    and "\<forall>x \<in> set succs. length (board x) = 9 \<and> - 1 \<le> emptyPos x \<and> emptyPos x < 9"
  shows "lists_ok C (foldl (addSuccessor C) opn succs)"
  using assms
proof (induction succs arbitrary: opn)
  case Nil
  then show ?case by simp
next
  case (Cons x xs)
  then have "lists_ok C (addSuccessor C opn x)"
    by (simp add: addSuccessor_lists_ok)
  with Cons show ?case by simp
qed

lemma puzzle_inv_lists_ok:
  "puzzle_inv s \<longleftrightarrow> length (puzzleState s) = 9 \<and> lists_ok (closedList s) (openList s)"
  by (simp add: puzzle_inv_def lists_ok_def)

lemma selectNext_lists_ok:
  assumes ok: "lists_ok C opn" and ne: "opn \<noteq> []" and sel: "selectNext alg opn = (n, r)"
  shows "lists_ok (C @ [n]) r" and "puzzle_state_ok n" and "board n \<notin> board ` set C"
proof -
  have m: "mset opn = add_mset n (mset r)" by (rule selectNext_mset [OF ne sel])
  then have "mset (opn @ C) = mset (r @ C @ [n])" by simp
  then have p: "mset (map board (opn @ C)) = mset (map board (r @ C @ [n]))"
    and q: "set (opn @ C) = set (r @ C @ [n])"
    by (metis mset_map, metis set_mset_mset)
  have "distinct (map board (r @ C @ [n]))"
    using ok p by (metis lists_ok_def mset_eq_imp_distinct_iff)
  moreover have "\<forall>x \<in> set (r @ C @ [n]). puzzle_state_ok x"
    using ok q by (simp add: lists_ok_def)
  ultimately show "lists_ok (C @ [n]) r" "puzzle_state_ok n" "board n \<notin> board ` set C"
    by (auto simp: lists_ok_def)
qed

lemma puzzle_step_preserves_inv:
  assumes "puzzle_inv s"
  shows "puzzle_inv (puzzle_step s)"
proof (cases "openList s = [] \<or> isComplete s")
  case True
  with assms show ?thesis by (simp add: puzzle_step_def)
next
  case False
  obtain n r where sel: "selectNext (algorithm s) (openList s) = (n, r)"
    by (cases "selectNext (algorithm s) (openList s)")
  from assms have len: "length (puzzleState s) = 9"
    and ok: "lists_ok (closedList s) (openList s)"
    by (simp_all add: puzzle_inv_lists_ok)
  from False have ne: "openList s \<noteq> []" by simp
  note ok' = selectNext_lists_ok [OF ok ne sel]
  show ?thesis
  proof (cases "isGoalState (board n)")
    case True
    with False sel have "puzzle_step s =
        s\<lparr>openList := r, closedList := closedList s @ [n], current := Some n,
          step_no := step_no s + 1, isComplete := True, isPlaying := False\<rparr>"
      by (simp add: puzzle_step_def Let_def)
    then show ?thesis using len ok'(1) by (simp add: puzzle_inv_lists_ok)
  next
    case g: False
    with False sel have e: "puzzle_step s =
        s\<lparr>openList := foldl (addSuccessor (closedList s @ [n])) r (getSuccessors n),
          closedList := closedList s @ [n], current := Some n, step_no := step_no s + 1\<rparr>"
      by (simp add: puzzle_step_def Let_def)
    have "\<forall>x \<in> set (getSuccessors n).
        length (board x) = 9 \<and> - 1 \<le> emptyPos x \<and> emptyPos x < 9"
      using getSuccessors_ok [of _ n] ok'(2) by (fastforce simp: puzzle_state_ok_def)
    with ok'(1) have "lists_ok (closedList s @ [n])
        (foldl (addSuccessor (closedList s @ [n])) r (getSuccessors n))"
      by (rule addSuccessors_lists_ok)
    then show ?thesis using len by (simp add: e puzzle_inv_lists_ok)
  qed
qed

lemma indexOf_range: "- 1 \<le> indexOf xs v \<and> indexOf xs v < int (length xs)"
  by (induction xs) (auto simp: Let_def)

lemma shuffle_round_length:
  "length (fst (shuffle_round r acc)) = length (fst acc)"
  by (cases acc) (simp add: shuffle_round_def Let_def length_swap_cells)

lemma shuffle_loop_length:
  "length (fst (foldl (\<lambda>acc i. shuffle_round (rnd i) acc) acc is)) = length (fst acc)"
  by (induction "is" arbitrary: acc) (simp_all add: shuffle_round_length)

text \<open>The blank stays on the board during the shuffle, so every swap is in range.\<close>

lemma shuffle_round_range:
  assumes "0 \<le> snd acc" "snd acc < 9"
  shows "0 \<le> snd (shuffle_round r acc) \<and> snd (shuffle_round r acc) < 9"
proof -
  obtain b e where acc: "acc = (b, e)" by (cases acc)
  define vm where "vm =
    (if e div 3 > 0 then [e - 3] else []) @ (if e div 3 < 2 then [e + 3] else []) @
    (if js_rem e 3 > 0 then [e - 1] else []) @ (if js_rem e 3 < 2 then [e + 1] else [])"
  have e: "0 \<le> e" "e < 9" using assms acc by simp_all
  then have rem: "js_rem e 3 = e mod 3" by (simp add: js_rem_def sgn_if)
  have "e \<in> {0, 1, 2, 3, 4, 5, 6, 7, 8}" using e by auto
  then have m: "\<forall>m \<in> set vm. 0 \<le> m \<and> m < 9"
    unfolding vm_def rem by auto
  have "vm \<noteq> []" unfolding vm_def by auto
  then have "r mod length vm < length vm" by simp
  then have "vm ! (r mod length vm) \<in> set vm" by (rule nth_mem)
  with m have "0 \<le> vm ! (r mod length vm) \<and> vm ! (r mod length vm) < 9" by blast
  then show ?thesis by (simp add: acc shuffle_round_def Let_def vm_def)
qed

lemma shuffle_loop_range:
  assumes "0 \<le> snd acc" "snd acc < 9"
  shows "0 \<le> snd (foldl (\<lambda>acc i. shuffle_round (rnd i) acc) acc is) \<and>
         snd (foldl (\<lambda>acc i. shuffle_round (rnd i) acc) acc is) < 9"
  using assms by (induction "is" arbitrary: acc) (simp_all add: shuffle_round_range)

lemma shuffle_preserves_inv:
  assumes "puzzle_inv s"
  shows "puzzle_inv (shuffle rnd s)"
proof (cases "isSolving s")
  case True
  with assms show ?thesis by (simp add: shuffle_def)
next
  case False
  obtain b e where l: "foldl (\<lambda>acc i. shuffle_round (rnd i) acc)
      (goalState, indexOf goalState 0) [0..<50] = (b, e)"
    by (cases "foldl (\<lambda>acc i. shuffle_round (rnd i) acc) (goalState, indexOf goalState 0) [0..<50]")
  have "length b = 9"
    using shuffle_loop_length [of rnd "(goalState, indexOf goalState 0)" "[0..<50]"]
    unfolding l by (simp add: goalState_def)
  with False show ?thesis
    by (simp add: shuffle_def resetSearch_def puzzle_inv_def l)
qed

lemma startSolve_preserves_inv:
  assumes "puzzle_inv s"
  shows "puzzle_inv (startSolve s)"
  using assms indexOf_range [of "puzzleState s" 0]
  by (simp add: startSolve_def puzzle_inv_def puzzle_state_ok_def Let_def)

lemma puzzle_reachable_inv: "puzzle_reachable s \<Longrightarrow> puzzle_inv s"
proof (induction rule: puzzle_reachable.induct)
  case puzzle_reach_initial
  show ?case by (simp add: puzzle_inv_def puzzle_initial_def initialState_def)
next
  case (puzzle_reach_step s)
  then show ?case by (simp add: puzzle_step_preserves_inv)
next
  case (puzzle_reach_reset s)
  then show ?case by (simp add: puzzle_inv_def resetSearch_def)
next
  case (puzzle_reach_start s)
  then show ?case by (simp add: startSolve_preserves_inv)
next
  case (puzzle_reach_shuffle s rnd)
  then show ?case by (simp add: shuffle_preserves_inv)
next
  case (puzzle_reach_select s a)
  then show ?case by (simp add: puzzle_inv_def selectAlgorithm_def)
next
  case (puzzle_reach_play s)
  then show ?case by (simp add: puzzle_inv_def)
qed

section \<open>Uniform-cost search on the sample graph\<close>

lemma ucs_dist_values:
  "ucs_dist ''A'' = 0" "ucs_dist ''B'' = 4" "ucs_dist ''C'' = 2" "ucs_dist ''D'' = 9"
  "ucs_dist ''E'' = 5" "ucs_dist ''F'' = 5" "ucs_dist ''G'' = 7"
  by (simp_all add: ucs_dist_def)

lemma ucs_graph_edges_dist:
  "\<forall>n \<in> set ucs_graph. \<forall>ed \<in> set (wneighbors n).
     ucs_dist (edge_id ed) \<le> ucs_dist (wnode_id n) + edge_cost ed"
  by (simp add: ucs_graph_def ucs_dist_values)

lemma ucs_edge_cost_dist:
  assumes "ucs_edge_cost u v = Some w"
  shows "ucs_dist v \<le> ucs_dist u + w"
proof -
  from assms obtain n where n: "find (\<lambda>n. wnode_id n = u) ucs_graph = Some n"
    and e: "map_option edge_cost (find (\<lambda>e. edge_id e = v) (wneighbors n)) = Some w"
    by (auto simp: ucs_edge_cost_def split: option.splits)
  from n have "n \<in> set ucs_graph" and u: "wnode_id n = u"
    by (auto simp: find_Some_iff)
  from e obtain ed where "find (\<lambda>e. edge_id e = v) (wneighbors n) = Some ed"
    and w: "edge_cost ed = w" by auto
  then have ed: "ed \<in> set (wneighbors n)" and v: "edge_id ed = v"
    by (auto simp: find_Some_iff)
  from \<open>n \<in> set ucs_graph\<close> ed have "ucs_dist (edge_id ed) \<le> ucs_dist (wnode_id n) + edge_cost ed"
    using ucs_graph_edges_dist by blast
  then show ?thesis by (simp add: u v w)
qed

lemma ucs_walk_cost_dist:
  "ucs_walk_cost p = Some c \<Longrightarrow> ucs_dist (last p) \<le> ucs_dist (hd p) + c"
proof (induction p arbitrary: c rule: ucs_walk_cost.induct)
  case 1
  then show ?case by simp
next
  case (2 u)
  then show ?case by (simp split: if_splits)
next
  case (3 u v rest)
  from "3.prems" obtain w c' where w: "ucs_edge_cost u v = Some w"
    and c': "ucs_walk_cost (v # rest) = Some c'" and c: "c = w + c'"
    by (auto split: option.splits)
  from "3.IH" [OF w c'] have "ucs_dist (last (v # rest)) \<le> ucs_dist v + c'" by simp
  moreover have "ucs_dist v \<le> ucs_dist u + w" by (rule ucs_edge_cost_dist [OF w])
  ultimately show ?case by (simp add: c)
qed

lemma ucs_run_complete: "ucs_isComplete s \<Longrightarrow> ucs_run n s = Some s"
  by (cases n) simp_all

lemma ucs_run_more_fuel: "ucs_run n s = Some s' \<Longrightarrow> ucs_run (n + k) s = Some s'"
proof (induction n s rule: ucs_run.induct)
  case (1 s)
  then show ?case by (simp add: ucs_run_complete split: if_splits)
next
  case (2 n s)
  then show ?case by (auto split: if_splits sum.splits)
qed

text \<open>
  C1 (as amended). A fresh UCS session stepped until the completion flag is set
  completes with the sixth step, the first that pops the goal \<open>G\<close>; the nodes are popped
  in ascending cost order \<open>A, C, B, F, E, G\<close>; the session reports total cost 7 and the
  path \<open>A, B, E, G\<close>; and 7 is the least cost of any walk from \<open>A\<close> to \<open>G\<close> along the
  declared edges.
\<close>

theorem ucs_goal_pop_optimal:
  "ucs_run 5 ucs_initial = None \<and>
   map_option (\<lambda>s. (ucs_current s, ucs_currentCost s, ucs_currentPath s, ucs_step_no s,
                     ucs_isComplete s)) (ucs_run (6 + k) ucs_initial) =
     Some (Some ''G'', 7, [''A'', ''B'', ''E'', ''G''], 6, True) \<and>
   map (\<lambda>n. map_sum id (\<lambda>s. (ucs_current s, ucs_currentCost s)) (ucs_steps n ucs_initial))
     [1, 2, 3, 4, 5, 6] =
     [Inr (Some ''A'', 0), Inr (Some ''C'', 2), Inr (Some ''B'', 4), Inr (Some ''F'', 5),
      Inr (Some ''E'', 5), Inr (Some ''G'', 7)] \<and>
   ucs_walk_cost [''A'', ''B'', ''E'', ''G''] = Some 7 \<and>
   (hd p = ''A'' \<and> last p = ''G'' \<and> ucs_walk_cost p = Some c \<longrightarrow> 7 \<le> c)"
proof -
  have a: "ucs_run 5 ucs_initial = None" by code_simp
  have six: "map_option (\<lambda>s. (ucs_current s, ucs_currentCost s, ucs_currentPath s, ucs_step_no s,
                     ucs_isComplete s)) (ucs_run 6 ucs_initial) =
     Some (Some ''G'', 7, [''A'', ''B'', ''E'', ''G''], 6, True)"
    by code_simp
  then obtain s where s: "ucs_run 6 ucs_initial = Some s" by blast
  have b: "map_option (\<lambda>s. (ucs_current s, ucs_currentCost s, ucs_currentPath s, ucs_step_no s,
                     ucs_isComplete s)) (ucs_run (6 + k) ucs_initial) =
     Some (Some ''G'', 7, [''A'', ''B'', ''E'', ''G''], 6, True)"
    using ucs_run_more_fuel [OF s, of k] six s by simp
  have c: "map (\<lambda>n. map_sum id (\<lambda>s. (ucs_current s, ucs_currentCost s)) (ucs_steps n ucs_initial))
     [1, 2, 3, 4, 5, 6] =
     [Inr (Some ''A'', 0), Inr (Some ''C'', 2), Inr (Some ''B'', 4), Inr (Some ''F'', 5),
      Inr (Some ''E'', 5), Inr (Some ''G'', 7)]"
    by code_simp
  have d: "ucs_walk_cost [''A'', ''B'', ''E'', ''G''] = Some 7" by code_simp
  have e: "hd p = ''A'' \<and> last p = ''G'' \<and> ucs_walk_cost p = Some c \<longrightarrow> 7 \<le> c"
    using ucs_walk_cost_dist [of p c] by (auto simp: ucs_dist_values)
  from a b c d e show ?thesis by blast
qed

text \<open>The walk \<open>A, C, F, G\<close> costs 9, which is not below the reported 7.\<close>

theorem ucs_goal_pop_optimal_witness:
  "hd [''A'', ''C'', ''F'', ''G''] = ''A'' \<and> last [''A'', ''C'', ''F'', ''G''] = ''G'' \<and>
   ucs_walk_cost [''A'', ''C'', ''F'', ''G''] = Some 9 \<and> (7::int) \<le> 9 \<and>
   map_option ucs_currentCost (ucs_run 6 ucs_initial) = Some 7"
proof -
  have w: "ucs_walk_cost [''A'', ''C'', ''F'', ''G''] = Some 9" by code_simp
  from ucs_goal_pop_optimal [of 0 "[''A'', ''C'', ''F'', ''G'']" 9] w
  show ?thesis by (simp add: option.map_comp comp_def map_option_case split: option.splits)
qed

text \<open>The session does not report the path \<open>A, C, F, G\<close>, and that path does not cost 7.\<close>

theorem ucs_reported_path_counterexample:
  "map_option ucs_currentPath (ucs_run 6 ucs_initial) \<noteq> Some [''A'', ''C'', ''F'', ''G''] \<and>
   ucs_walk_cost [''A'', ''C'', ''F'', ''G''] \<noteq> Some 7"
  by code_simp

section \<open>Traversal order, cutoff, guards and reset\<close>

text \<open>
  C2 (as amended). A fresh DFS session pops \<open>A, B, D, E, G\<close> in this order, each node's
  unvisited neighbours being pushed in reverse of their declared order; the goal \<open>G\<close> is
  popped by the fifth step, which sets the completion flag and leaves the step counter
  at 5; the recorded path is then \<open>A, B, D, E, G\<close>.
\<close>

theorem dfs_expansion_order:
  "dfs_steps 1 dfs_initial =
     Inr \<lparr>dfs_visited = {|''A''|}, dfs_stack = [''C'', ''B''], dfs_current = Some ''A'',
          dfs_path = [''A''], dfs_step_no = 1, dfs_isPlaying = False,
          dfs_isComplete = False\<rparr> \<and>
   dfs_steps 2 dfs_initial =
     Inr \<lparr>dfs_visited = {|''B'', ''A''|}, dfs_stack = [''C'', ''E'', ''D''],
          dfs_current = Some ''B'', dfs_path = [''A'', ''B''], dfs_step_no = 2,
          dfs_isPlaying = False, dfs_isComplete = False\<rparr> \<and>
   dfs_steps 3 dfs_initial =
     Inr \<lparr>dfs_visited = {|''D'', ''B'', ''A''|}, dfs_stack = [''C'', ''E''],
          dfs_current = Some ''D'', dfs_path = [''A'', ''B'', ''D''], dfs_step_no = 3,
          dfs_isPlaying = False, dfs_isComplete = False\<rparr> \<and>
   dfs_steps 4 dfs_initial =
     Inr \<lparr>dfs_visited = {|''E'', ''D'', ''B'', ''A''|}, dfs_stack = [''C'', ''G''],
          dfs_current = Some ''E'', dfs_path = [''A'', ''B'', ''D'', ''E''], dfs_step_no = 4,
          dfs_isPlaying = False, dfs_isComplete = False\<rparr> \<and>
   dfs_steps 5 dfs_initial =
     Inr \<lparr>dfs_visited = {|''G'', ''E'', ''D'', ''B'', ''A''|}, dfs_stack = [''C'', ''F''],
          dfs_current = Some ''G'', dfs_path = [''A'', ''B'', ''D'', ''E'', ''G''],
          dfs_step_no = 5, dfs_isPlaying = False, dfs_isComplete = True\<rparr>"
proof -
  have 1: "dfs_steps 1 dfs_initial =
     Inr \<lparr>dfs_visited = {|''A''|}, dfs_stack = [''C'', ''B''], dfs_current = Some ''A'',
          dfs_path = [''A''], dfs_step_no = 1, dfs_isPlaying = False,
          dfs_isComplete = False\<rparr>"
    by code_simp
  have 2: "dfs_steps 2 dfs_initial =
     Inr \<lparr>dfs_visited = {|''B'', ''A''|}, dfs_stack = [''C'', ''E'', ''D''],
          dfs_current = Some ''B'', dfs_path = [''A'', ''B''], dfs_step_no = 2,
          dfs_isPlaying = False, dfs_isComplete = False\<rparr>"
    by code_simp
  have 3: "dfs_steps 3 dfs_initial =
     Inr \<lparr>dfs_visited = {|''D'', ''B'', ''A''|}, dfs_stack = [''C'', ''E''],
          dfs_current = Some ''D'', dfs_path = [''A'', ''B'', ''D''], dfs_step_no = 3,
          dfs_isPlaying = False, dfs_isComplete = False\<rparr>"
    by code_simp
  have 4: "dfs_steps 4 dfs_initial =
     Inr \<lparr>dfs_visited = {|''E'', ''D'', ''B'', ''A''|}, dfs_stack = [''C'', ''G''],
          dfs_current = Some ''E'', dfs_path = [''A'', ''B'', ''D'', ''E''], dfs_step_no = 4,
          dfs_isPlaying = False, dfs_isComplete = False\<rparr>"
    by code_simp
  have 5: "dfs_steps 5 dfs_initial =
     Inr \<lparr>dfs_visited = {|''G'', ''E'', ''D'', ''B'', ''A''|}, dfs_stack = [''C'', ''F''],
          dfs_current = Some ''G'', dfs_path = [''A'', ''B'', ''D'', ''E'', ''G''],
          dfs_step_no = 5, dfs_isPlaying = False, dfs_isComplete = True\<rparr>"
    by code_simp
  from 1 2 3 4 5 show ?thesis by blast
qed

text \<open>After four steps the session shows \<open>E\<close> under step counter 4 and is not complete;
  it is complete after the fifth, and the counter is then not 4.\<close>

theorem dfs_goal_step_counterexample:
  "\<not> isl (dfs_steps 4 dfs_initial) \<and>
   \<not> dfs_isComplete (projr (dfs_steps 4 dfs_initial)) \<and>
   dfs_current (projr (dfs_steps 4 dfs_initial)) \<noteq> Some ''G'' \<and>
   dfs_step_no (projr (dfs_steps 4 dfs_initial)) = 4 \<and>
   \<not> isl (dfs_steps 5 dfs_initial) \<and>
   dfs_isComplete (projr (dfs_steps 5 dfs_initial)) \<and>
   dfs_step_no (projr (dfs_steps 5 dfs_initial)) \<noteq> 4"
  by code_simp

lemma dls_step_cutoff_sticky:
  assumes "dls_cutoffReached s" "dls_step d s = Inr s'"
  shows "dls_cutoffReached s'"
  using assms by (auto simp: dls_step_def Let_def split: if_splits option.splits)

lemma dls_steps_cutoff_sticky:
  "dls_cutoffReached s \<Longrightarrow> dls_steps d n s = Inr s' \<Longrightarrow> dls_cutoffReached s'"
proof (induction n arbitrary: s)
  case 0
  then show ?case by simp
next
  case (Suc n)
  from Suc.prems(2) obtain t where t: "dls_step d s = Inr t" and r: "dls_steps d n t = Inr s'"
    by (auto split: sum.splits)
  from Suc.prems(1) t have "dls_cutoffReached t" by (rule dls_step_cutoff_sticky)
  then show ?case using r by (rule Suc.IH)
qed

text \<open>
  C3. With depth limit 0 the first step of a fresh DLS session marks \<open>A\<close> visited,
  pushes nothing and sets \<open>cutoffReached\<close>. From any session with the flag set, a step
  under any depth limit, and any number of steps, leave it set; \<open>reset\<close> clears it.
\<close>

theorem dls_cutoff_sticky:
  "dls_step 0 dls_initial =
     Inr \<lparr>dls_visited = {|''A''|}, dls_stack = [], dls_current = Some ''A'',
          dls_currentDepth = 0, dls_currentPath = [''A''], dls_step_no = 1,
          dls_cutoffReached = True, dls_isPlaying = False, dls_isComplete = False\<rparr> \<and>
   (dls_cutoffReached s \<and> dls_step d s = Inr s' \<longrightarrow> dls_cutoffReached s') \<and>
   (dls_cutoffReached s \<and> dls_steps d n s = Inr s'' \<longrightarrow> dls_cutoffReached s'') \<and>
   \<not> dls_cutoffReached (dls_reset s)"
proof -
  have "dls_step 0 dls_initial =
     Inr \<lparr>dls_visited = {|''A''|}, dls_stack = [], dls_current = Some ''A'',
          dls_currentDepth = 0, dls_currentPath = [''A''], dls_step_no = 1,
          dls_cutoffReached = True, dls_isPlaying = False, dls_isComplete = False\<rparr>"
    by code_simp
  moreover have "\<not> dls_cutoffReached (dls_reset s)" by (simp add: dls_reset_def)
  ultimately show ?thesis
    using dls_step_cutoff_sticky [of s d s'] dls_steps_cutoff_sticky [of s d n s''] by blast
qed

text \<open>The flag set by the fourth step under depth limit 2 (the pop of \<open>E\<close> at depth 2,
  with \<open>G\<close> unvisited) is still set after the next step and after two more.\<close>

theorem dls_cutoff_sticky_witness:
  "dls_cutoffReached (projr (dls_steps 2 4 dls_initial)) \<and>
   dls_step 2 (projr (dls_steps 2 4 dls_initial)) = Inr (projr (dls_steps 2 5 dls_initial)) \<and>
   dls_cutoffReached (projr (dls_steps 2 5 dls_initial)) \<and>
   dls_steps 2 2 (projr (dls_steps 2 4 dls_initial)) = Inr (projr (dls_steps 2 6 dls_initial)) \<and>
   dls_cutoffReached (projr (dls_steps 2 6 dls_initial))"
proof -
  have a: "dls_cutoffReached (projr (dls_steps 2 4 dls_initial))" by code_simp
  have b: "dls_step 2 (projr (dls_steps 2 4 dls_initial)) = Inr (projr (dls_steps 2 5 dls_initial))"
    by code_simp
  have c: "dls_steps 2 2 (projr (dls_steps 2 4 dls_initial)) =
      Inr (projr (dls_steps 2 6 dls_initial))"
    by code_simp
  from dls_cutoff_sticky [of "projr (dls_steps 2 4 dls_initial)" 2
      "projr (dls_steps 2 5 dls_initial)" 2 "projr (dls_steps 2 6 dls_initial)"] a b c
  show ?thesis by blast
qed

text \<open>
  C5. In each of the four variants a step on a session whose frontier is empty or
  whose completion flag is set returns the session unchanged, without an exception.
\<close>

theorem step_guard_noop:
  "(dfs_stack s1 = [] \<or> dfs_isComplete s1 \<longrightarrow> dfs_step s1 = Inr s1) \<and>
   (dls_stack s2 = [] \<or> dls_isComplete s2 \<longrightarrow> dls_step d s2 = Inr s2) \<and>
   (ucs_priorityQueue s3 = [] \<or> ucs_isComplete s3 \<longrightarrow> ucs_step s3 = Inr s3) \<and>
   (openList s4 = [] \<or> isComplete s4 \<longrightarrow> puzzle_step s4 = s4)"
  by (simp add: dfs_step_def dls_step_def ucs_step_def puzzle_step_def)

text \<open>A completed DFS session (stack still \<open>[C, F]\<close>), a DLS session with emptied stack,
  a completed UCS session and the puzzle before \<open>startSolve\<close>.\<close>

theorem step_guard_noop_witness:
  "dfs_isComplete (projr (dfs_steps 5 dfs_initial)) \<and>
   dfs_step (projr (dfs_steps 5 dfs_initial)) = Inr (projr (dfs_steps 5 dfs_initial)) \<and>
   dls_stack (projr (dls_steps 0 1 dls_initial)) = [] \<and>
   dls_step 0 (projr (dls_steps 0 1 dls_initial)) = Inr (projr (dls_steps 0 1 dls_initial)) \<and>
   ucs_isComplete (projr (ucs_steps 6 ucs_initial)) \<and>
   ucs_step (projr (ucs_steps 6 ucs_initial)) = Inr (projr (ucs_steps 6 ucs_initial)) \<and>
   openList puzzle_initial = [] \<and> puzzle_step puzzle_initial = puzzle_initial"
proof -
  have a: "dfs_isComplete (projr (dfs_steps 5 dfs_initial))" by code_simp
  have b: "dls_stack (projr (dls_steps 0 1 dls_initial)) = []" by code_simp
  have c: "ucs_isComplete (projr (ucs_steps 6 ucs_initial))" by code_simp
  have d: "openList puzzle_initial = []" by (simp add: puzzle_initial_def)
  from step_guard_noop [of "projr (dfs_steps 5 dfs_initial)" "projr (dls_steps 0 1 dls_initial)" 0
      "projr (ucs_steps 6 ucs_initial)" puzzle_initial] a b c d
  show ?thesis by blast
qed

lemma funpow_const:
  fixes f :: "'a \<Rightarrow> 'a"
  assumes "\<And>x. f x = c"
  shows "(f ^^ Suc n) s = c"
proof -
  have "(f ^^ Suc n) s = f ((f ^^ n) s)" by simp
  also have "\<dots> = c" by (rule assms)
  finally show ?thesis .
qed

lemma resetSearch_funpow: "(resetSearch ^^ Suc n) s = resetSearch s"
proof (induction n)
  case 0
  show ?case by simp
next
  case (Suc n)
  have "(resetSearch ^^ Suc (Suc n)) s = resetSearch ((resetSearch ^^ Suc n) s)" by simp
  also have "\<dots> = resetSearch (resetSearch s)" by (simp only: Suc.IH)
  also have "\<dots> = resetSearch s" by (simp add: resetSearch_def)
  finally show ?case .
qed

text \<open>
  C8. One or more invocations of \<open>reset\<close>, from any session at all, give the initial
  session of the DFS, DLS and UCS components. One or more invocations of \<open>resetSearch\<close>
  give the same session as a single one, whose open list, closed list, current record,
  step counter and flags are those of the initial puzzle session.
\<close>

theorem reset_idempotent:
  "(dfs_reset ^^ Suc n) s1 = dfs_initial \<and>
   (dls_reset ^^ Suc n) s2 = dls_initial \<and>
   (ucs_reset ^^ Suc n) s3 = ucs_initial \<and>
   (resetSearch ^^ Suc n) s4 = resetSearch s4 \<and>
   openList (resetSearch s4) = openList puzzle_initial \<and>
   closedList (resetSearch s4) = closedList puzzle_initial \<and>
   current (resetSearch s4) = current puzzle_initial \<and>
   step_no (resetSearch s4) = step_no puzzle_initial \<and>
   isComplete (resetSearch s4) = isComplete puzzle_initial \<and>
   isPlaying (resetSearch s4) = isPlaying puzzle_initial \<and>
   isSolving (resetSearch s4) = isSolving puzzle_initial \<and>
   openList puzzle_initial = [] \<and> closedList puzzle_initial = [] \<and>
   step_no puzzle_initial = 0 \<and> \<not> isComplete puzzle_initial"
proof -
  have "(dfs_reset ^^ Suc n) s1 = dfs_initial"
    by (rule funpow_const) (simp add: dfs_reset_def dfs_initial_def)
  moreover have "(dls_reset ^^ Suc n) s2 = dls_initial"
    by (rule funpow_const) (simp add: dls_reset_def dls_initial_def)
  moreover have "(ucs_reset ^^ Suc n) s3 = ucs_initial"
    by (rule funpow_const) (simp add: ucs_reset_def ucs_initial_def)
  moreover have "(resetSearch ^^ Suc n) s4 = resetSearch s4"
    by (rule resetSearch_funpow)
  ultimately show ?thesis
    by (simp add: resetSearch_def puzzle_initial_def)
qed

text \<open>
  C10. \<open>resetSearch\<close> empties the open and the closed list, clears the current record,
  zeroes the step counter and lowers the playing, solving and completion flags; the
  selected algorithm and the board, whatever a shuffle left there, stay as they were.
\<close>

theorem resetSearch_frame:
  "algorithm (resetSearch s) = algorithm s \<and>
   puzzleState (resetSearch s) = puzzleState s \<and>
   puzzleState (resetSearch (shuffle rnd s)) = puzzleState (shuffle rnd s) \<and>
   openList (resetSearch s) = [] \<and> closedList (resetSearch s) = [] \<and>
   current (resetSearch s) = None \<and> step_no (resetSearch s) = 0 \<and>
   \<not> isPlaying (resetSearch s) \<and> \<not> isSolving (resetSearch s) \<and>
   \<not> isComplete (resetSearch s)"
  by (simp add: resetSearch_def)

section \<open>Growth of the visited sets\<close>

lemma dfs_step_visited_mono: "dfs_step s = Inr s' \<Longrightarrow> dfs_visited s |\<subseteq>| dfs_visited s'"
  by (auto simp: dfs_step_def Let_def split: if_splits option.splits)

lemma dfs_steps_visited_mono:
  "dfs_steps n s = Inr s' \<Longrightarrow> fcard (dfs_visited s) \<le> fcard (dfs_visited s')"
proof (induction n arbitrary: s)
  case 0
  then show ?case by simp
next
  case (Suc n)
  from Suc.prems obtain t where t: "dfs_step s = Inr t" and r: "dfs_steps n t = Inr s'"
    by (auto split: sum.splits)
  have "fcard (dfs_visited s) \<le> fcard (dfs_visited t)"
    using dfs_step_visited_mono [OF t] by (rule fcard_mono)
  also have "\<dots> \<le> fcard (dfs_visited s')" using r by (rule Suc.IH)
  finally show ?case .
qed

lemma dfs_step_grows:
  assumes "dfs_reachable s" "dfs_stack s \<noteq> []" "\<not> dfs_isComplete s"
  shows "\<exists>s'. dfs_step s = Inr s' \<and> dfs_visited s |\<subseteq>| dfs_visited s' \<and>
           fcard (dfs_visited s') = fcard (dfs_visited s) + 1"
proof -
  have inv: "dfs_inv s" using assms(1) by (rule dfs_reachable_inv)
  let ?cur = "last (dfs_stack s)"
  from inv assms(2) have ing: "?cur \<in> node_id ` set dfs_graph"
    and new: "?cur |\<notin>| dfs_visited s"
    by (auto simp: dfs_inv_def)
  from ing obtain c where c: "find (\<lambda>n. node_id n = ?cur) dfs_graph = Some c"
    by (rule dfs_find_in_graph)
  obtain s' where s': "dfs_step s = Inr s'"
    and v: "dfs_visited s' = finsert ?cur (dfs_visited s)"
    using dfs_step_active [OF assms(2,3) c] by simp
  have "fcard (dfs_visited s') = fcard (dfs_visited s) + 1"
    unfolding v using new by (simp add: fcard_finsert_disjoint)
  moreover have "dfs_visited s |\<subseteq>| dfs_visited s'" unfolding v by auto
  ultimately show ?thesis using s' by blast
qed

lemma dls_step_visited_mono:
  "dls_step d s = Inr s' \<Longrightarrow> dls_visited s |\<subseteq>| dls_visited s'"
  by (auto simp: dls_step_def Let_def split: if_splits option.splits)

lemma dls_steps_visited_mono:
  "dls_steps d n s = Inr s' \<Longrightarrow> fcard (dls_visited s) \<le> fcard (dls_visited s')"
proof (induction n arbitrary: s)
  case 0
  then show ?case by simp
next
  case (Suc n)
  from Suc.prems obtain t where t: "dls_step d s = Inr t" and r: "dls_steps d n t = Inr s'"
    by (auto split: sum.splits)
  have "fcard (dls_visited s) \<le> fcard (dls_visited t)"
    using dls_step_visited_mono [OF t] by (rule fcard_mono)
  also have "\<dots> \<le> fcard (dls_visited s')" using r by (rule Suc.IH)
  finally show ?case .
qed

lemma dls_step_returns:
  assumes "find (\<lambda>n. node_id n = dls_nodeId (last (dls_stack s))) dls_graph = Some c"
  shows "\<exists>s'. dls_step d s = Inr s'"
  using assms by (simp add: dls_step_def Let_def split: prod.splits)

lemma dls_step_grows:
  assumes "dls_reachable s" "dls_stack s \<noteq> []" "\<not> dls_isComplete s"
  shows "\<exists>s'. dls_step d s = Inr s' \<and> dls_visited s |\<subseteq>| dls_visited s' \<and>
           fcard (dls_visited s') = fcard (dls_visited s) + 1"
proof -
  have inv: "dls_inv s" using assms(1) by (rule dls_reachable_inv)
  let ?cur = "dls_nodeId (last (dls_stack s))"
  from inv assms(2) have ing: "?cur \<in> node_id ` set dls_graph"
    and new: "?cur |\<notin>| dls_visited s"
    by (auto simp: dls_inv_def)
  from ing obtain c where c: "find (\<lambda>n. node_id n = ?cur) dls_graph = Some c"
    by (rule dls_find_in_graph)
  obtain s' where s': "dls_step d s = Inr s'" using dls_step_returns [OF c] by blast
  have v: "dls_visited s' = finsert ?cur (dls_visited s)"
    by (rule dls_step_active(1) [OF assms(2,3) c s'])
  have "fcard (dls_visited s') = fcard (dls_visited s) + 1"
    unfolding v using new by (simp add: fcard_finsert_disjoint)
  moreover have "dls_visited s |\<subseteq>| dls_visited s'" unfolding v by auto
  ultimately show ?thesis using s' by blast
qed

lemma ucs_step_visited_mono: "ucs_step s = Inr s' \<Longrightarrow> ucs_visited s |\<subseteq>| ucs_visited s'"
  by (auto simp: ucs_step_def Let_def split: if_splits option.splits prod.splits)

lemma ucs_steps_visited_mono:
  "ucs_steps n s = Inr s' \<Longrightarrow> fcard (ucs_visited s) \<le> fcard (ucs_visited s')"
proof (induction n arbitrary: s)
  case 0
  then show ?case by simp
next
  case (Suc n)
  from Suc.prems obtain t where t: "ucs_step s = Inr t" and r: "ucs_steps n t = Inr s'"
    by (auto split: sum.splits)
  have "fcard (ucs_visited s) \<le> fcard (ucs_visited t)"
    using ucs_step_visited_mono [OF t] by (rule fcard_mono)
  also have "\<dots> \<le> fcard (ucs_visited s')" using r by (rule Suc.IH)
  finally show ?case .
qed

lemma ucs_step_returns:
  assumes "find (\<lambda>n. wnode_id n = ucs_nodeId (hd (sort_key ucs_cost (ucs_priorityQueue s))))
             ucs_graph = Some c"
  shows "\<exists>s'. ucs_step s = Inr s'"
  using assms by (simp add: ucs_step_def Let_def split: prod.splits)

lemma ucs_step_grows:
  assumes "ucs_reachable s" "ucs_priorityQueue s \<noteq> []" "\<not> ucs_isComplete s"
  shows "\<exists>s'. ucs_step s = Inr s' \<and> ucs_visited s |\<subseteq>| ucs_visited s' \<and>
           fcard (ucs_visited s') = fcard (ucs_visited s) + 1"
proof -
  have inv: "ucs_inv s" using assms(1) by (rule ucs_reachable_inv)
  let ?item = "hd (sort_key ucs_cost (ucs_priorityQueue s))"
  have "mset (ucs_priorityQueue s) = add_mset ?item (mset (tl (sort_key ucs_cost (ucs_priorityQueue s))))"
    by (rule sort_key_pop_mset [OF assms(2)])
  then have "?item \<in> set (ucs_priorityQueue s)"
    by (metis set_mset_mset union_single_eq_member)
  with inv have ing: "ucs_nodeId ?item \<in> wnode_id ` set ucs_graph"
    and new: "ucs_nodeId ?item |\<notin>| ucs_visited s"
    by (auto simp: ucs_inv_def)
  from ing obtain c where c: "find (\<lambda>n. wnode_id n = ucs_nodeId ?item) ucs_graph = Some c"
    by (rule ucs_find_in_graph)
  obtain s' where s': "ucs_step s = Inr s'" using ucs_step_returns [OF c] by blast
  have v: "ucs_visited s' = finsert (ucs_nodeId ?item) (ucs_visited s)"
    by (rule ucs_step_active(1) [OF assms(2,3) c s'])
  have "fcard (ucs_visited s') = fcard (ucs_visited s) + 1"
    unfolding v using new by (simp add: fcard_finsert_disjoint)
  moreover have "ucs_visited s |\<subseteq>| ucs_visited s'" unfolding v by auto
  ultimately show ?thesis using s' by blast
qed

lemma puzzle_step_closed:
  assumes "openList s \<noteq> []" "\<not> isComplete s"
  shows "closedList (puzzle_step s) =
           closedList s @ [fst (selectNext (algorithm s) (openList s))]"
  using assms by (simp add: puzzle_step_def Let_def split: prod.splits)

lemma puzzle_step_closed_mono:
  "set (closedList s) \<subseteq> set (closedList (puzzle_step s)) \<and>
   length (closedList s) \<le> length (closedList (puzzle_step s))"
proof (cases "openList s = [] \<or> isComplete s")
  case True
  then show ?thesis by (simp add: puzzle_step_def)
next
  case False
  then show ?thesis by (auto simp: puzzle_step_closed)
qed

lemma puzzle_steps_closed_mono:
  "length (closedList s) \<le> length (closedList (puzzle_steps n s))"
proof (induction n arbitrary: s)
  case 0
  show ?case by simp
next
  case (Suc n)
  have "length (closedList s) \<le> length (closedList (puzzle_step s))"
    using puzzle_step_closed_mono by blast
  also have "\<dots> \<le> length (closedList (puzzle_steps n (puzzle_step s)))" by (rule Suc.IH)
  finally show ?case by simp
qed

lemma puzzle_step_grows:
  assumes "puzzle_reachable s" "openList s \<noteq> []" "\<not> isComplete s"
  shows "set (closedList s) \<subseteq> set (closedList (puzzle_step s)) \<and>
         length (closedList (puzzle_step s)) = length (closedList s) + 1 \<and>
         card (board ` set (closedList (puzzle_step s))) =
           card (board ` set (closedList s)) + 1"
proof -
  obtain n r where sel: "selectNext (algorithm s) (openList s) = (n, r)"
    by (cases "selectNext (algorithm s) (openList s)")
  have "puzzle_inv s" using assms(1) by (rule puzzle_reachable_inv)
  then have "lists_ok (closedList s) (openList s)" by (simp add: puzzle_inv_lists_ok)
  then have new: "board n \<notin> board ` set (closedList s)"
    using assms(2) sel by (rule selectNext_lists_ok(3))
  have c: "closedList (puzzle_step s) = closedList s @ [n]"
    using puzzle_step_closed [OF assms(2,3)] sel by simp
  have "card (board ` set (closedList (puzzle_step s))) = card (board ` set (closedList s)) + 1"
    unfolding c using new by simp
  then show ?thesis unfolding c by auto
qed

text \<open>
  C6. From a reachable session with non-empty frontier and unset completion flag, one
  step returns a session whose visited set (closed list) contains the previous one and
  has exactly one element more; for the puzzle this holds of the list, of its length and
  of the set of closed boards. Over any number of steps the size never decreases.
\<close>

theorem visited_grows_by_one:
  "(dfs_reachable s1 \<and> dfs_stack s1 \<noteq> [] \<and> \<not> dfs_isComplete s1 \<longrightarrow>
      (\<exists>s'. dfs_step s1 = Inr s' \<and> dfs_visited s1 |\<subseteq>| dfs_visited s' \<and>
         fcard (dfs_visited s') = fcard (dfs_visited s1) + 1)) \<and>
   (dls_reachable s2 \<and> dls_stack s2 \<noteq> [] \<and> \<not> dls_isComplete s2 \<longrightarrow>
      (\<exists>s'. dls_step d s2 = Inr s' \<and> dls_visited s2 |\<subseteq>| dls_visited s' \<and>
         fcard (dls_visited s') = fcard (dls_visited s2) + 1)) \<and>
   (ucs_reachable s3 \<and> ucs_priorityQueue s3 \<noteq> [] \<and> \<not> ucs_isComplete s3 \<longrightarrow>
      (\<exists>s'. ucs_step s3 = Inr s' \<and> ucs_visited s3 |\<subseteq>| ucs_visited s' \<and>
         fcard (ucs_visited s') = fcard (ucs_visited s3) + 1)) \<and>
   (puzzle_reachable s4 \<and> openList s4 \<noteq> [] \<and> \<not> isComplete s4 \<longrightarrow>
      set (closedList s4) \<subseteq> set (closedList (puzzle_step s4)) \<and>
      length (closedList (puzzle_step s4)) = length (closedList s4) + 1 \<and>
      card (board ` set (closedList (puzzle_step s4))) =
        card (board ` set (closedList s4)) + 1) \<and>
   (dfs_steps n t1 = Inr t1' \<longrightarrow> fcard (dfs_visited t1) \<le> fcard (dfs_visited t1')) \<and>
   (dls_steps d n t2 = Inr t2' \<longrightarrow> fcard (dls_visited t2) \<le> fcard (dls_visited t2')) \<and>
   (ucs_steps n t3 = Inr t3' \<longrightarrow> fcard (ucs_visited t3) \<le> fcard (ucs_visited t3')) \<and>
   length (closedList t4) \<le> length (closedList (puzzle_steps n t4))"
  using dfs_step_grows [of s1] dls_step_grows [of s2 d] ucs_step_grows [of s3]
    puzzle_step_grows [of s4] dfs_steps_visited_mono [of n t1 t1']
    dls_steps_visited_mono [of d n t2 t2'] ucs_steps_visited_mono [of n t3 t3']
    puzzle_steps_closed_mono [of t4 n]
  by blast

section \<open>Frontier and visited set share no element\<close>

lemma dfs_steps_reachable:
  "dfs_reachable s \<Longrightarrow> dfs_steps n s = Inr s' \<Longrightarrow> dfs_reachable s'"
proof (induction n arbitrary: s)
  case 0
  then show ?case by simp
next
  case (Suc n)
  from Suc.prems(2) obtain t where t: "dfs_step s = Inr t" and r: "dfs_steps n t = Inr s'"
    by (auto split: sum.splits)
  from Suc.prems(1) t have "dfs_reachable t" by (rule dfs_reach_step)
  then show ?case using r by (rule Suc.IH)
qed

lemma dls_steps_reachable:
  "dls_reachable s \<Longrightarrow> dls_steps d n s = Inr s' \<Longrightarrow> dls_reachable s'"
proof (induction n arbitrary: s)
  case 0
  then show ?case by simp
next
  case (Suc n)
  from Suc.prems(2) obtain t where t: "dls_step d s = Inr t" and r: "dls_steps d n t = Inr s'"
    by (auto split: sum.splits)
  from Suc.prems(1) t have "dls_reachable t" by (rule dls_reach_step)
  then show ?case using r by (rule Suc.IH)
qed

lemma ucs_steps_reachable:
  "ucs_reachable s \<Longrightarrow> ucs_steps n s = Inr s' \<Longrightarrow> ucs_reachable s'"
proof (induction n arbitrary: s)
  case 0
  then show ?case by simp
next
  case (Suc n)
  from Suc.prems(2) obtain t where t: "ucs_step s = Inr t" and r: "ucs_steps n t = Inr s'"
    by (auto split: sum.splits)
  from Suc.prems(1) t have "ucs_reachable t" by (rule ucs_reach_step)
  then show ?case using r by (rule Suc.IH)
qed

lemma puzzle_steps_reachable: "puzzle_reachable s \<Longrightarrow> puzzle_reachable (puzzle_steps n s)"
  by (induction n arbitrary: s) (simp_all add: puzzle_reach_step)

lemma not_isl_projr: "\<not> isl x \<Longrightarrow> x = Inr (projr x)"
  by (cases x) simp_all

lemma ucs_sample_steps: "ucs_steps 2 ucs_initial = Inr (projr (ucs_steps 2 ucs_initial))"
proof -
  have "\<not> isl (ucs_steps 2 ucs_initial)" by code_simp
  then show ?thesis by (rule not_isl_projr)
qed

text \<open>The sample sessions of the witnesses below are reachable.\<close>

lemma dfs_sample_reachable: "dfs_reachable (projr (dfs_steps 2 dfs_initial))"
proof -
  have "dfs_steps 2 dfs_initial = Inr (projr (dfs_steps 2 dfs_initial))" by code_simp
  with dfs_reach_initial show ?thesis by (rule dfs_steps_reachable)
qed

lemma dls_sample_reachable: "dls_reachable (projr (dls_steps 3 2 dls_initial))"
proof -
  have "dls_steps 3 2 dls_initial = Inr (projr (dls_steps 3 2 dls_initial))" by code_simp
  with dls_reach_initial show ?thesis by (rule dls_steps_reachable)
qed

lemma ucs_sample_reachable: "ucs_reachable (projr (ucs_steps 2 ucs_initial))"
proof -
  from ucs_reach_initial ucs_sample_steps show ?thesis by (rule ucs_steps_reachable)
qed

lemma puzzle_sample_reachable:
  "puzzle_reachable (puzzle_steps 2 (startSolve puzzle_initial))"
  by (intro puzzle_steps_reachable puzzle_reach_start puzzle_reach_initial)

text \<open>After two steps of each variant (depth limit 3; the puzzle started on its initial
  board under BFS) the next step adds one element, and two steps from the initial
  session do not shrink the set.\<close>

theorem visited_grows_by_one_witness:
  "(dfs_reachable (projr (dfs_steps 2 dfs_initial)) \<and>
    dfs_stack (projr (dfs_steps 2 dfs_initial)) \<noteq> [] \<and>
    \<not> dfs_isComplete (projr (dfs_steps 2 dfs_initial))) \<and>
   (\<exists>s'. dfs_step (projr (dfs_steps 2 dfs_initial)) = Inr s' \<and>
      dfs_visited (projr (dfs_steps 2 dfs_initial)) |\<subseteq>| dfs_visited s' \<and>
      fcard (dfs_visited s') = fcard (dfs_visited (projr (dfs_steps 2 dfs_initial))) + 1) \<and>
   (dls_reachable (projr (dls_steps 3 2 dls_initial)) \<and>
    dls_stack (projr (dls_steps 3 2 dls_initial)) \<noteq> [] \<and>
    \<not> dls_isComplete (projr (dls_steps 3 2 dls_initial))) \<and>
   (\<exists>s'. dls_step 3 (projr (dls_steps 3 2 dls_initial)) = Inr s' \<and>
      dls_visited (projr (dls_steps 3 2 dls_initial)) |\<subseteq>| dls_visited s' \<and>
      fcard (dls_visited s') = fcard (dls_visited (projr (dls_steps 3 2 dls_initial))) + 1) \<and>
   (ucs_reachable (projr (ucs_steps 2 ucs_initial)) \<and>
    ucs_priorityQueue (projr (ucs_steps 2 ucs_initial)) \<noteq> [] \<and>
    \<not> ucs_isComplete (projr (ucs_steps 2 ucs_initial))) \<and>
   (\<exists>s'. ucs_step (projr (ucs_steps 2 ucs_initial)) = Inr s' \<and>
      ucs_visited (projr (ucs_steps 2 ucs_initial)) |\<subseteq>| ucs_visited s' \<and>
      fcard (ucs_visited s') = fcard (ucs_visited (projr (ucs_steps 2 ucs_initial))) + 1) \<and>
   (puzzle_reachable (puzzle_steps 2 (startSolve puzzle_initial)) \<and>
    openList (puzzle_steps 2 (startSolve puzzle_initial)) \<noteq> [] \<and>
    \<not> isComplete (puzzle_steps 2 (startSolve puzzle_initial))) \<and>
   length (closedList (puzzle_step (puzzle_steps 2 (startSolve puzzle_initial)))) =
     length (closedList (puzzle_steps 2 (startSolve puzzle_initial))) + 1 \<and>
   card (board ` set (closedList (puzzle_step (puzzle_steps 2 (startSolve puzzle_initial))))) =
     card (board ` set (closedList (puzzle_steps 2 (startSolve puzzle_initial)))) + 1 \<and>
   dfs_steps 2 dfs_initial = Inr (projr (dfs_steps 2 dfs_initial)) \<and>
   fcard (dfs_visited dfs_initial) \<le> fcard (dfs_visited (projr (dfs_steps 2 dfs_initial))) \<and>
   dls_steps 3 2 dls_initial = Inr (projr (dls_steps 3 2 dls_initial)) \<and>
   fcard (dls_visited dls_initial) \<le> fcard (dls_visited (projr (dls_steps 3 2 dls_initial))) \<and>
   ucs_steps 2 ucs_initial = Inr (projr (ucs_steps 2 ucs_initial)) \<and>
   fcard (ucs_visited ucs_initial) \<le> fcard (ucs_visited (projr (ucs_steps 2 ucs_initial)))"
proof -
  have a: "dfs_stack (projr (dfs_steps 2 dfs_initial)) \<noteq> []"
    "\<not> dfs_isComplete (projr (dfs_steps 2 dfs_initial))"
    "dfs_steps 2 dfs_initial = Inr (projr (dfs_steps 2 dfs_initial))"
    by code_simp+
  have b: "dls_stack (projr (dls_steps 3 2 dls_initial)) \<noteq> []"
    "\<not> dls_isComplete (projr (dls_steps 3 2 dls_initial))"
    "dls_steps 3 2 dls_initial = Inr (projr (dls_steps 3 2 dls_initial))"
    by code_simp+
  have c: "ucs_priorityQueue (projr (ucs_steps 2 ucs_initial)) \<noteq> []"
    "\<not> ucs_isComplete (projr (ucs_steps 2 ucs_initial))"
    by code_simp+
  note c = c ucs_sample_steps
  have d: "openList (puzzle_steps 2 (startSolve puzzle_initial)) \<noteq> []"
    "\<not> isComplete (puzzle_steps 2 (startSolve puzzle_initial))"
    by code_simp+
  from visited_grows_by_one [of "projr (dfs_steps 2 dfs_initial)"
      "projr (dls_steps 3 2 dls_initial)" 3 "projr (ucs_steps 2 ucs_initial)"
      "puzzle_steps 2 (startSolve puzzle_initial)" 2 dfs_initial
      "projr (dfs_steps 2 dfs_initial)" dls_initial "projr (dls_steps 3 2 dls_initial)"
      ucs_initial "projr (ucs_steps 2 ucs_initial)"]
    a b c d dfs_sample_reachable dls_sample_reachable ucs_sample_reachable
    puzzle_sample_reachable
  show ?thesis by blast
qed

lemma puzzle_boards_differ:
  assumes "puzzle_inv s" "i < j" "j < length (openList s @ closedList s)"
  shows "\<not> boardsEqual (board ((openList s @ closedList s) ! i))
             (board ((openList s @ closedList s) ! j)) \<and>
         \<not> boardsEqual (board ((openList s @ closedList s) ! j))
             (board ((openList s @ closedList s) ! i))"
proof -
  define l where "l = openList s @ closedList s"
  have d: "distinct (map board l)" and ok: "\<forall>x \<in> set l. puzzle_state_ok x"
    using assms(1) by (simp_all add: puzzle_inv_def l_def)
  have j: "j < length l" and i: "i < length l" using assms(2,3) by (simp_all add: l_def)
  have "map board l ! i \<noteq> map board l ! j"
    using d i j assms(2) by (simp add: distinct_conv_nth)
  then have ne: "board (l ! i) \<noteq> board (l ! j)" using i j by simp
  have "l ! i \<in> set l" "l ! j \<in> set l" using i j by simp_all
  then have "length (board (l ! i)) = 9" "length (board (l ! j)) = 9"
    using ok by (simp_all add: puzzle_state_ok_def)
  then have "\<not> boardsEqual (board (l ! i)) (board (l ! j)) \<and>
             \<not> boardsEqual (board (l ! j)) (board (l ! i))"
    using ne by (simp add: boardsEqual_same_length)
  then show ?thesis unfolding l_def .
qed

text \<open>
  C7. In every reachable session the frontier holds no node identifier twice and none
  that is in the visited set (DFS, DLS, UCS); in the puzzle no two entries of the open
  and the closed list taken together have position-wise equal boards.
\<close>

theorem frontier_visited_no_duplicates:
  "(dfs_reachable s1 \<longrightarrow>
      distinct (dfs_stack s1) \<and> (\<forall>x \<in> set (dfs_stack s1). x |\<notin>| dfs_visited s1)) \<and>
   (dls_reachable s2 \<longrightarrow>
      distinct (map dls_nodeId (dls_stack s2)) \<and>
      (\<forall>x \<in> set (dls_stack s2). dls_nodeId x |\<notin>| dls_visited s2)) \<and>
   (ucs_reachable s3 \<longrightarrow>
      distinct (map ucs_nodeId (ucs_priorityQueue s3)) \<and>
      (\<forall>x \<in> set (ucs_priorityQueue s3). ucs_nodeId x |\<notin>| ucs_visited s3)) \<and>
   (puzzle_reachable s4 \<longrightarrow>
      (\<forall>i j. i < j \<and> j < length (openList s4 @ closedList s4) \<longrightarrow>
         \<not> boardsEqual (board ((openList s4 @ closedList s4) ! i))
              (board ((openList s4 @ closedList s4) ! j)) \<and>
         \<not> boardsEqual (board ((openList s4 @ closedList s4) ! j))
              (board ((openList s4 @ closedList s4) ! i))))"
proof -
  have "dfs_reachable s1 \<longrightarrow>
      distinct (dfs_stack s1) \<and> (\<forall>x \<in> set (dfs_stack s1). x |\<notin>| dfs_visited s1)"
    using dfs_reachable_inv [of s1] by (simp add: dfs_inv_def)
  moreover have "dls_reachable s2 \<longrightarrow>
      distinct (map dls_nodeId (dls_stack s2)) \<and>
      (\<forall>x \<in> set (dls_stack s2). dls_nodeId x |\<notin>| dls_visited s2)"
    using dls_reachable_inv [of s2] by (simp add: dls_inv_def)
  moreover have "ucs_reachable s3 \<longrightarrow>
      distinct (map ucs_nodeId (ucs_priorityQueue s3)) \<and>
      (\<forall>x \<in> set (ucs_priorityQueue s3). ucs_nodeId x |\<notin>| ucs_visited s3)"
    using ucs_reachable_inv [of s3] by (simp add: ucs_inv_def)
  moreover have "puzzle_reachable s4 \<longrightarrow>
      (\<forall>i j. i < j \<and> j < length (openList s4 @ closedList s4) \<longrightarrow>
         \<not> boardsEqual (board ((openList s4 @ closedList s4) ! i))
              (board ((openList s4 @ closedList s4) ! j)) \<and>
         \<not> boardsEqual (board ((openList s4 @ closedList s4) ! j))
              (board ((openList s4 @ closedList s4) ! i)))"
    using puzzle_reachable_inv [of s4] puzzle_boards_differ [of s4] by blast
  ultimately show ?thesis by blast
qed

text \<open>The sessions after two steps (depth limit 3; the puzzle started on its initial
  board under BFS): every frontier entry is unvisited, and the first open state and the
  sixth entry of the two lists together have different boards.\<close>

theorem frontier_visited_no_duplicates_witness:
  "dfs_reachable (projr (dfs_steps 2 dfs_initial)) \<and>
   distinct (dfs_stack (projr (dfs_steps 2 dfs_initial))) \<and>
   list_all (\<lambda>x. x |\<notin>| dfs_visited (projr (dfs_steps 2 dfs_initial)))
     (dfs_stack (projr (dfs_steps 2 dfs_initial))) \<and>
   dls_reachable (projr (dls_steps 3 2 dls_initial)) \<and>
   distinct (map dls_nodeId (dls_stack (projr (dls_steps 3 2 dls_initial)))) \<and>
   list_all (\<lambda>x. dls_nodeId x |\<notin>| dls_visited (projr (dls_steps 3 2 dls_initial)))
     (dls_stack (projr (dls_steps 3 2 dls_initial))) \<and>
   ucs_reachable (projr (ucs_steps 2 ucs_initial)) \<and>
   distinct (map ucs_nodeId (ucs_priorityQueue (projr (ucs_steps 2 ucs_initial)))) \<and>
   list_all (\<lambda>x. ucs_nodeId x |\<notin>| ucs_visited (projr (ucs_steps 2 ucs_initial)))
     (ucs_priorityQueue (projr (ucs_steps 2 ucs_initial))) \<and>
   puzzle_reachable (puzzle_steps 2 (startSolve puzzle_initial)) \<and>
   (0::nat) < 5 \<and>
   5 < length (openList (puzzle_steps 2 (startSolve puzzle_initial)) @
               closedList (puzzle_steps 2 (startSolve puzzle_initial))) \<and>
   \<not> boardsEqual
      (board ((openList (puzzle_steps 2 (startSolve puzzle_initial)) @
               closedList (puzzle_steps 2 (startSolve puzzle_initial))) ! 0))
      (board ((openList (puzzle_steps 2 (startSolve puzzle_initial)) @
               closedList (puzzle_steps 2 (startSolve puzzle_initial))) ! 5))"
proof -
  have l: "5 < length (openList (puzzle_steps 2 (startSolve puzzle_initial)) @
               closedList (puzzle_steps 2 (startSolve puzzle_initial)))"
    by code_simp
  from frontier_visited_no_duplicates [of "projr (dfs_steps 2 dfs_initial)"
      "projr (dls_steps 3 2 dls_initial)" "projr (ucs_steps 2 ucs_initial)"
      "puzzle_steps 2 (startSolve puzzle_initial)"]
    l dfs_sample_reachable dls_sample_reachable ucs_sample_reachable puzzle_sample_reachable
  show ?thesis unfolding list_all_iff by (metis zero_less_numeral)
qed

section \<open>Deduplication in the puzzle and the relaxation test of UCS\<close>

lemma puzzle_step_open:
  assumes "openList s \<noteq> []" "\<not> isComplete s"
    and "selectNext (algorithm s) (openList s) = (n, r)" "\<not> isGoalState (board n)"
  shows "openList (puzzle_step s) =
           foldl (addSuccessor (closedList s @ [n])) r (getSuccessors n)"
  using assms by (simp add: puzzle_step_def Let_def)

text \<open>
  C4. In a step that generates successors, under any of the three algorithms, the open
  list after the step is the open list left by the selection, unchanged and in place,
  followed by some of the successors in their order of generation. A successor whose
  board is position-wise equal to a board of the closed list (the selected state
  included) or of the open list is not among them; a successor that is not among them
  has a board position-wise equal to one of the closed list, of the open list or of a
  successor appended in the same step. The selection removes the selected state only.
\<close>

theorem puzzle_first_seen_wins:
  assumes "openList s \<noteq> []" and "\<not> isComplete s"
    and "selectNext (algorithm s) (openList s) = (nextState, rest)"
    and "\<not> isGoalState (board nextState)"
  shows "mset (openList s) = add_mset nextState (mset rest) \<and>
         closedList (puzzle_step s) = closedList s @ [nextState] \<and>
         (\<exists>added. openList (puzzle_step s) = rest @ added \<and>
            subseq added (getSuccessors nextState) \<and>
            (\<forall>x \<in> set (getSuccessors nextState).
               (x \<in> set added \<longrightarrow>
                  \<not> (\<exists>y \<in> set (closedList s @ [nextState]) \<union> set rest.
                        boardsEqual (board y) (board x))) \<and>
               (x \<notin> set added \<longrightarrow>
                  (\<exists>y \<in> set (closedList s @ [nextState]) \<union> set rest \<union> set added.
                        boardsEqual (board y) (board x)))))"
proof -
  have m: "mset (openList s) = add_mset nextState (mset rest)"
    by (rule selectNext_mset [OF assms(1,3)])
  have c: "closedList (puzzle_step s) = closedList s @ [nextState]"
    using puzzle_step_closed [OF assms(1,2)] assms(3) by simp
  have o: "openList (puzzle_step s) =
      foldl (addSuccessor (closedList s @ [nextState])) rest (getSuccessors nextState)"
    by (rule puzzle_step_open [OF assms])
  from addSuccessors_result [of "closedList s @ [nextState]" rest "getSuccessors nextState"]
  obtain added where a:
    "foldl (addSuccessor (closedList s @ [nextState])) rest (getSuccessors nextState) =
       rest @ added"
    "subseq added (getSuccessors nextState)"
    "\<forall>x \<in> set added. \<not> (\<exists>y \<in> set (closedList s @ [nextState]) \<union> set rest.
        boardsEqual (board y) (board x))"
    "\<forall>x \<in> set (getSuccessors nextState). x \<notin> set added \<longrightarrow>
       (\<exists>y \<in> set (closedList s @ [nextState]) \<union> set rest \<union> set added.
          boardsEqual (board y) (board x))"
    by blast
  have "openList (puzzle_step s) = rest @ added" using o a(1) by simp
  with a(2,3,4) m c show ?thesis by blast
qed

text \<open>The second step of an A* session on the initial board: the state reached by
  \<open>RIGHT\<close> is selected; of its successors the one by \<open>LEFT\<close> restores the closed
  initial board and is discarded, the ones by \<open>UP\<close> and \<open>DOWN\<close> are appended.\<close>

theorem puzzle_first_seen_wins_witness:
  "openList (puzzle_step (startSolve (selectAlgorithm astar puzzle_initial))) \<noteq> [] \<and>
   \<not> isComplete (puzzle_step (startSolve (selectAlgorithm astar puzzle_initial))) \<and>
   \<not> isGoalState (board (fst (selectNext astar
        (openList (puzzle_step (startSolve (selectAlgorithm astar puzzle_initial))))))) \<and>
   map path (getSuccessors (fst (selectNext astar
        (openList (puzzle_step (startSolve (selectAlgorithm astar puzzle_initial))))))) =
     [[''RIGHT'', ''UP''], [''RIGHT'', ''DOWN''], [''RIGHT'', ''LEFT'']] \<and>
   map path (openList (puzzle_steps 2 (startSolve (selectAlgorithm astar puzzle_initial)))) =
     [[''UP''], [''DOWN''], [''LEFT''], [''RIGHT'', ''UP''], [''RIGHT'', ''DOWN'']] \<and>
   (\<exists>added.
      openList (puzzle_step (puzzle_step (startSolve (selectAlgorithm astar puzzle_initial)))) =
        snd (selectNext astar
          (openList (puzzle_step (startSolve (selectAlgorithm astar puzzle_initial))))) @ added \<and>
      subseq added (getSuccessors (fst (selectNext astar
        (openList (puzzle_step (startSolve (selectAlgorithm astar puzzle_initial))))))))"
proof -
  define s where "s = puzzle_step (startSolve (selectAlgorithm astar puzzle_initial))"
  have alg: "algorithm s = astar" unfolding s_def by code_simp
  have 1: "openList s \<noteq> []" unfolding s_def by code_simp
  have 2: "\<not> isComplete s" unfolding s_def by code_simp
  have 3: "selectNext (algorithm s) (openList s) =
      (fst (selectNext astar (openList s)), snd (selectNext astar (openList s)))"
    by (simp add: alg)
  have 4: "\<not> isGoalState (board (fst (selectNext astar (openList s))))"
    unfolding s_def by code_simp
  have 5: "map path (getSuccessors (fst (selectNext astar (openList s)))) =
     [[''RIGHT'', ''UP''], [''RIGHT'', ''DOWN''], [''RIGHT'', ''LEFT'']]"
    unfolding s_def by code_simp
  have 6: "map path (openList (puzzle_steps 2 (startSolve (selectAlgorithm astar puzzle_initial)))) =
     [[''UP''], [''DOWN''], [''LEFT''], [''RIGHT'', ''UP''], [''RIGHT'', ''DOWN'']]"
    by code_simp
  from puzzle_first_seen_wins [OF 1 2 3 4]
  have "\<exists>added. openList (puzzle_step s) = snd (selectNext astar (openList s)) @ added \<and>
      subseq added (getSuccessors (fst (selectNext astar (openList s))))"
    by blast
  with 1 2 4 5 6 show ?thesis unfolding s_def by blast
qed

lemma ucs_relax_other:
  assumes "edge_id nb \<noteq> i" "ucs_relax cur V (cs, q) nb = (cs', q')"
  shows "cs' i = cs i \<and>
         filter (\<lambda>x. ucs_nodeId x = i) q' = filter (\<lambda>x. ucs_nodeId x = i) q"
proof -
  have "filter (\<lambda>x. ucs_nodeId x = i) (filter (\<lambda>item. ucs_nodeId item \<noteq> edge_id nb) q) =
        filter (\<lambda>x. ucs_nodeId x = i) q"
    using assms(1) by (induction q) auto
  then show ?thesis
    using assms by (auto simp: ucs_relax_def Let_def split: if_splits option.splits)
qed

lemma ucs_foldl_relax_other:
  assumes "\<forall>nb \<in> set nbs. edge_id nb \<noteq> i" "foldl (ucs_relax cur V) (cs, q) nbs = (cs', q')"
  shows "cs' i = cs i \<and>
         filter (\<lambda>x. ucs_nodeId x = i) q' = filter (\<lambda>x. ucs_nodeId x = i) q"
  using assms
proof (induction nbs arbitrary: cs q)
  case Nil
  then show ?case by simp
next
  case (Cons nb nbs)
  obtain cs1 q1 where r: "ucs_relax cur V (cs, q) nb = (cs1, q1)"
    by (cases "ucs_relax cur V (cs, q) nb")
  have "edge_id nb \<noteq> i" using Cons.prems(1) by simp
  then have 1: "cs1 i = cs i \<and>
      filter (\<lambda>x. ucs_nodeId x = i) q1 = filter (\<lambda>x. ucs_nodeId x = i) q"
    using r by (rule ucs_relax_other)
  have "cs' i = cs1 i \<and>
      filter (\<lambda>x. ucs_nodeId x = i) q' = filter (\<lambda>x. ucs_nodeId x = i) q1"
    using Cons.IH [of cs1 q1] Cons.prems r by simp
  with 1 show ?case by simp
qed

lemma ucs_relax_zero:
  assumes "edge_id nb |\<notin>| V" "cs (edge_id nb) = Some 0"
  shows "ucs_relax cur V (cs, q) nb =
     (cs(edge_id nb \<mapsto> ucs_cost cur + edge_cost nb),
      filter (\<lambda>item. ucs_nodeId item \<noteq> edge_id nb) q @
        [\<lparr>ucs_nodeId = edge_id nb, ucs_cost = ucs_cost cur + edge_cost nb,
          ucs_path = ucs_path cur @ [edge_id nb]\<rparr>])"
  using assms by (simp add: ucs_relax_def Let_def)

text \<open>
  C9. Let a step pop \<open>currentItem\<close> and let \<open>neighbor\<close> be a declared neighbour of the
  popped node that is unvisited and whose recorded best cost is 0. Then the step records
  the candidate cost \<open>ucs_cost currentItem + edge_cost neighbor\<close> for it, whatever that
  cost is, and leaves in the queue exactly one entry for it, the new candidate: a
  recorded 0 is treated as no record.
\<close>

theorem ucs_zero_cost_treated_as_absent:
  assumes "\<not> ucs_isComplete s"
    and "sort_key ucs_cost (ucs_priorityQueue s) = currentItem # remainingQueue"
    and "find (\<lambda>n. wnode_id n = ucs_nodeId currentItem) ucs_graph = Some currentNode"
    and "neighbor \<in> set (wneighbors currentNode)"
    and "edge_id neighbor |\<notin>| finsert (ucs_nodeId currentItem) (ucs_visited s)"
    and "ucs_costs s (edge_id neighbor) = Some 0"
  shows "\<exists>s'. ucs_step s = Inr s' \<and>
           ucs_costs s' (edge_id neighbor) =
             Some (ucs_cost currentItem + edge_cost neighbor) \<and>
           filter (\<lambda>item. ucs_nodeId item = edge_id neighbor) (ucs_priorityQueue s') =
             [\<lparr>ucs_nodeId = edge_id neighbor,
               ucs_cost = ucs_cost currentItem + edge_cost neighbor,
               ucs_path = ucs_path currentItem @ [edge_id neighbor]\<rparr>]"
proof -
  let ?V = "finsert (ucs_nodeId currentItem) (ucs_visited s)"
  let ?i = "edge_id neighbor"
  let ?new = "\<lparr>ucs_nodeId = ?i, ucs_cost = ucs_cost currentItem + edge_cost neighbor,
               ucs_path = ucs_path currentItem @ [?i]\<rparr>"
  have ne: "ucs_priorityQueue s \<noteq> []" using assms(2) by auto
  have hd: "hd (sort_key ucs_cost (ucs_priorityQueue s)) = currentItem"
    and tl: "tl (sort_key ucs_cost (ucs_priorityQueue s)) = remainingQueue"
    using assms(2) by simp_all
  have c: "find (\<lambda>n. wnode_id n = ucs_nodeId (hd (sort_key ucs_cost (ucs_priorityQueue s))))
      ucs_graph = Some currentNode"
    using assms(3) hd by simp
  obtain s' where s': "ucs_step s = Inr s'" using ucs_step_returns [OF c] by blast
  have fold: "(ucs_costs s', ucs_priorityQueue s') =
      foldl (ucs_relax currentItem ?V) (ucs_costs s, remainingQueue) (wneighbors currentNode)"
    using ucs_step_active(2) [OF ne assms(1) c s'] hd tl by simp
  have "currentNode \<in> set ucs_graph" using assms(3) by (auto simp: find_Some_iff)
  then have dist: "distinct (map edge_id (wneighbors currentNode))"
    by (rule ucs_graph_neighbors_distinct)
  from assms(4) obtain xs ys where split: "wneighbors currentNode = xs @ neighbor # ys"
    by (auto dest: split_list)
  have "?i \<notin> set (map edge_id xs)" and "?i \<notin> set (map edge_id ys)"
    using dist unfolding split by auto
  then have xs: "\<forall>nb \<in> set xs. edge_id nb \<noteq> ?i" and ys: "\<forall>nb \<in> set ys. edge_id nb \<noteq> ?i"
    by (metis image_eqI set_map)+
  obtain cs1 q1 where 1: "foldl (ucs_relax currentItem ?V) (ucs_costs s, remainingQueue) xs =
      (cs1, q1)"
    by (cases "foldl (ucs_relax currentItem ?V) (ucs_costs s, remainingQueue) xs")
  have "cs1 ?i = Some 0" using ucs_foldl_relax_other [OF xs 1] assms(6) by simp
  then have 2: "ucs_relax currentItem ?V (cs1, q1) neighbor =
      (cs1(?i \<mapsto> ucs_cost currentItem + edge_cost neighbor),
       filter (\<lambda>item. ucs_nodeId item \<noteq> ?i) q1 @ [?new])"
    using assms(5) by (simp add: ucs_relax_zero)
  have 3: "foldl (ucs_relax currentItem ?V)
       (cs1(?i \<mapsto> ucs_cost currentItem + edge_cost neighbor),
        filter (\<lambda>item. ucs_nodeId item \<noteq> ?i) q1 @ [?new]) ys =
      (ucs_costs s', ucs_priorityQueue s')"
    using fold 1 2 by (simp add: split)
  have "ucs_costs s' ?i = Some (ucs_cost currentItem + edge_cost neighbor) \<and>
      filter (\<lambda>x. ucs_nodeId x = ?i) (ucs_priorityQueue s') =
      filter (\<lambda>x. ucs_nodeId x = ?i) (filter (\<lambda>item. ucs_nodeId item \<noteq> ?i) q1 @ [?new])"
    using ucs_foldl_relax_other [OF ys 3] by simp
  moreover have
    "filter (\<lambda>x. ucs_nodeId x = ?i) (filter (\<lambda>item. ucs_nodeId item \<noteq> ?i) q1 @ [?new]) = [?new]"
    by (induction q1) auto
  ultimately show ?thesis using s' by auto
qed

text \<open>A session whose queue holds \<open>B\<close> at cost 4 and whose cost map records 0 for the
  unvisited \<open>A\<close>: the step pops \<open>B\<close> and records the worse cost 8 for \<open>A\<close>.\<close>

theorem ucs_zero_cost_treated_as_absent_witness:
  "\<exists>s'. ucs_step (ucs_initial\<lparr>ucs_priorityQueue :=
            [\<lparr>ucs_nodeId = ''B'', ucs_cost = 4, ucs_path = [''A'', ''B'']\<rparr>]\<rparr>) = Inr s' \<and>
      ucs_costs ucs_initial ''A'' = Some 0 \<and>
      ucs_costs s' ''A'' = Some 8 \<and>
      filter (\<lambda>item. ucs_nodeId item = ''A'') (ucs_priorityQueue s') =
        [\<lparr>ucs_nodeId = ''A'', ucs_cost = 8, ucs_path = [''A'', ''B'', ''A'']\<rparr>]"
proof -
  define s where "s = ucs_initial\<lparr>ucs_priorityQueue :=
            [\<lparr>ucs_nodeId = ''B'', ucs_cost = 4, ucs_path = [''A'', ''B'']\<rparr>]\<rparr>"
  define b where "b = \<lparr>wnode_id = ''B'', wnode_x = 50, wnode_y = 150,
      wneighbors = [\<lparr>edge_id = ''A'', edge_cost = 4\<rparr>, \<lparr>edge_id = ''D'', edge_cost = 5\<rparr>,
                    \<lparr>edge_id = ''E'', edge_cost = 1\<rparr>]\<rparr>"
  have 1: "\<not> ucs_isComplete s" by (simp add: s_def ucs_initial_def)
  have 2: "sort_key ucs_cost (ucs_priorityQueue s) =
      \<lparr>ucs_nodeId = ''B'', ucs_cost = 4, ucs_path = [''A'', ''B'']\<rparr> # []"
    by (simp add: s_def)
  have 3: "find (\<lambda>n. wnode_id n =
        ucs_nodeId \<lparr>ucs_nodeId = ''B'', ucs_cost = 4, ucs_path = [''A'', ''B'']\<rparr>) ucs_graph =
      Some b"
    by (simp add: ucs_graph_def b_def)
  have 4: "\<lparr>edge_id = ''A'', edge_cost = 4\<rparr> \<in> set (wneighbors b)" by (simp add: b_def)
  have 5: "edge_id \<lparr>edge_id = ''A'', edge_cost = 4\<rparr> |\<notin>|
      finsert (ucs_nodeId \<lparr>ucs_nodeId = ''B'', ucs_cost = 4, ucs_path = [''A'', ''B'']\<rparr>)
        (ucs_visited s)"
    by (simp add: s_def ucs_initial_def)
  have 6: "ucs_costs s (edge_id \<lparr>edge_id = ''A'', edge_cost = 4\<rparr>) = Some 0"
    by (simp add: s_def ucs_initial_def)
  from ucs_zero_cost_treated_as_absent [OF 1 2 3 4 5 6] 6
  show ?thesis unfolding s_def by (simp add: ucs_initial_def)
qed

end
